theory Spec2Isabelle
  imports Complex_Main "HOL-Library.Multiset"
begin

section \<open>Process scheduling simulators (process-scheduling-algorithms/main.cc)\<close>

text \<open>
  The C++ program simulates three CPU scheduling disciplines over a vector of
  \<^verbatim>\<open>ps::Process\<close> structs.  The embedding below follows the source function by
  function.

  \<^item> C++ \<^verbatim>\<open>int\<close> values are modelled by \<^typ>\<open>int\<close>.  Signed overflow is undefined
    behaviour in C++, so there is no wrap-around to write out; every statement below is
    about runs whose arithmetic stays inside the 32-bit range.  The one place where the
    range is visible in the source, \<^verbatim>\<open>std::numeric_limits<int>::max()\<close>, is the
    constant \<open>INT_MAX\<close>.
  \<^item> The \<^verbatim>\<open>float\<close> members of \<^verbatim>\<open>ProcessAverageMetrics\<close> are IEEE 754 binary32
    values (type \<open>cfloat\<close> below): every conversion, addition and division rounds to the
    nearest representable value, ties to even.
  \<^item> The field \<^verbatim>\<open>at\<close> is written \<open>at'\<close>, because \<open>at\<close> is reserved syntax of
    the HOL library.
\<close>

subsection \<open>Data model\<close>

text \<open>
  A C++ \<^verbatim>\<open>float\<close>: a finite binary32 value (a rational number), an infinity or NaN.
  The sign of zero is not modelled.
\<close>

datatype cfloat = Finite rat | PInf | NInf | NaN

text \<open>The number of binary digits of a positive integer.\<close>

function bits :: "int \<Rightarrow> nat" where
  "bits n = (if n \<le> 0 then 0 else Suc (bits (n div 2)))"
  by auto
termination
  by (relation "measure nat") auto

declare bits.simps [simp del]

definition round_half_even :: "rat \<Rightarrow> int" where
  "round_half_even y =
     (let f = \<lfloor>y\<rfloor>; r = y - of_int f
      in if r < 1 / 2 then f else if r > 1 / 2 then f + 1 else if even f then f else f + 1)"

definition FLT_MAX :: rat where
  "FLT_MAX = (2 ^ 24 - 1) * 2 ^ 104"

text \<open>
  Rounding of an exact value to binary32, round to nearest, ties to even.  \<open>y\<close> is the
  magnitude in units of the smallest subnormal, \<open>2 ^ e\<close> the spacing of the binary32
  values around it in those units (24 significant bits, spacing 1 in the subnormal range
  and the first normal binade), \<open>m\<close> the rounded significand.  A result above
  \<open>FLT_MAX\<close> is an infinity.
\<close>

definition to_float :: "rat \<Rightarrow> cfloat" where
  "to_float x =
     (let y = \<bar>x\<bar> * 2 ^ 149;
          e = bits \<lfloor>y\<rfloor> - 24;
          m = round_half_even (y / 2 ^ e);
          v = of_int m * 2 ^ e / 2 ^ 149
      in if v > FLT_MAX then (if x < 0 then NInf else PInf)
         else Finite (if x < 0 then - v else v))"

text \<open>
  \<^verbatim>\<open>static_cast<float>\<close> of an \<^verbatim>\<open>int\<close> and of the \<^verbatim>\<open>std::size_t\<close> process
  count.
\<close>

definition float_of_int :: "int \<Rightarrow> cfloat" where
  "float_of_int i = to_float (of_int i)"

definition float_of_size :: "nat \<Rightarrow> cfloat" where
  "float_of_size n = to_float (of_nat n)"

text \<open>Addition and division of \<^verbatim>\<open>float\<close> values.\<close>

fun fadd :: "cfloat \<Rightarrow> cfloat \<Rightarrow> cfloat" where
  "fadd (Finite a) (Finite b) = to_float (a + b)"
| "fadd NaN y = NaN"
| "fadd x NaN = NaN"
| "fadd PInf NInf = NaN"
| "fadd NInf PInf = NaN"
| "fadd PInf y = PInf"
| "fadd NInf y = NInf"
| "fadd x PInf = PInf"
| "fadd x NInf = NInf"

fun fdiv :: "cfloat \<Rightarrow> cfloat \<Rightarrow> cfloat" where
  "fdiv (Finite a) (Finite b) =
     (if b = 0 then (if a = 0 then NaN else if a > 0 then PInf else NInf)
      else to_float (a / b))"
| "fdiv NaN y = NaN"
| "fdiv x NaN = NaN"
| "fdiv (Finite a) y = Finite 0"
| "fdiv PInf (Finite b) = (if b < 0 then NInf else PInf)"
| "fdiv NInf (Finite b) = (if b < 0 then PInf else NInf)"
| "fdiv x y = NaN"

record ProcessAverageMetrics =
  tt :: cfloat
  rt :: cfloat
  wt :: cfloat

record Process =
  at' :: int
  bt :: int
  st :: int
  ct :: int
  tt :: int
  rt :: int
  wt :: int
  rbt :: int
  queued :: bool
  finished :: bool

definition INT_MAX :: int where
  "INT_MAX = 2147483647"

text \<open>
  \<^verbatim>\<open>ProcessAverageMetrics metrics{}\<close>: value initialisation, all three sums zero.
\<close>

definition metrics0 :: ProcessAverageMetrics where
  "metrics0 = \<lparr>ProcessAverageMetrics.tt = Finite 0, rt = Finite 0, wt = Finite 0\<rparr>"

text \<open>
  The three \<^verbatim>\<open>metrics.x += static_cast<float>(p.x)\<close> statements that every engine
  executes when a process completes.
\<close>

definition accumulate :: "ProcessAverageMetrics \<Rightarrow> Process \<Rightarrow> ProcessAverageMetrics" where
  "accumulate m p =
     \<lparr>ProcessAverageMetrics.tt = fadd (ProcessAverageMetrics.tt m) (float_of_int (tt p)),
      rt = fadd (ProcessAverageMetrics.rt m) (float_of_int (rt p)),
      wt = fadd (ProcessAverageMetrics.wt m) (float_of_int (wt p))\<rparr>"

text \<open>
  The three \<^verbatim>\<open>metrics.x /= static_cast<float>(processes_count_)\<close> statements at the end
  of every engine.  For a count of zero the sums are zero and the result is NaN.
\<close>

definition average :: "ProcessAverageMetrics \<Rightarrow> nat \<Rightarrow> ProcessAverageMetrics" where
  "average m n =
     \<lparr>ProcessAverageMetrics.tt = fdiv (ProcessAverageMetrics.tt m) (float_of_size n),
      rt = fdiv (ProcessAverageMetrics.rt m) (float_of_size n),
      wt = fdiv (ProcessAverageMetrics.wt m) (float_of_size n)\<rparr>"

text \<open>
  The record that \<^verbatim>\<open>ParseFile\<close> pushes:
  \<^verbatim>\<open>{.at = at, .bt = bt, .rbt = bt}\<close>, every other member zero or false.
\<close>

definition mk_process :: "int \<Rightarrow> int \<Rightarrow> Process" where
  "mk_process a b =
     \<lparr>at' = a, bt = b, st = 0, ct = 0, tt = 0, rt = 0, wt = 0, rbt = b,
      queued = False, finished = False\<rparr>"

subsection \<open>Scheduler::SortArrivalTimeAsceding\<close>

text \<open>
  The source calls \<^verbatim>\<open>std::sort\<close> with the comparator \<^verbatim>\<open>lhs.at < rhs.at\<close>.  The
  library routine is not part of the repository; what the C++ standard promises about it
  is its postcondition: the vector is rearranged (same elements, same multiplicities) so
  that no element compares less than an earlier one.  The order of elements that compare
  equivalent is left open by the standard, so the sort is modelled by this postcondition,
  as a relation between the vector before and after.
\<close>

definition SortArrivalTimeAsceding :: "Process list \<Rightarrow> Process list \<Rightarrow> bool" where
  "SortArrivalTimeAsceding ps qs \<longleftrightarrow>
     mset qs = mset ps \<and> sorted_wrt (\<lambda>l r. \<not> at' r < at' l) qs"

subsection \<open>FCFSScheduler::Start\<close>

text \<open>
  The \<^verbatim>\<open>for\<close> loop of lines 66--79, over the index \<open>i\<close>; \<open>ps\<close> is the vector
  \<^verbatim>\<open>processes_\<close>, updated in place, and \<open>m\<close> the running sums.
\<close>

function FCFS_loop ::
  "nat \<Rightarrow> Process list \<Rightarrow> ProcessAverageMetrics \<Rightarrow> Process list \<times> ProcessAverageMetrics"
where
  "FCFS_loop i ps m =
     (if i < length ps then
        let p = ps ! i;
            p = p\<lparr>st := (if i = 0 then at' p else max (at' p) (ct (ps ! (i - 1))))\<rparr>;
            p = p\<lparr>ct := st p + bt p\<rparr>;
            p = p\<lparr>tt := ct p - at' p\<rparr>;
            p = p\<lparr>rt := st p - at' p\<rparr>;
            p = p\<lparr>wt := tt p - bt p\<rparr>
        in FCFS_loop (i + 1) (ps[i := p]) (accumulate m p)
      else (ps, m))"
  by pat_completeness auto
termination
  by (relation "measure (\<lambda>(i, ps, m). length ps - i)") auto

declare FCFS_loop.simps [simp del]

text \<open>
  The part of \<^verbatim>\<open>FCFSScheduler::Start\<close> after the sort: the pass and the three
  divisions.  The result is the final vector together with the returned averages.
\<close>

definition FCFS_run :: "Process list \<Rightarrow> Process list \<times> ProcessAverageMetrics" where
  "FCFS_run qs =
     (let (ps', m) = FCFS_loop 0 qs metrics0 in (ps', average m (length qs)))"

text \<open>
  \<^verbatim>\<open>FCFSScheduler::Start\<close>: any arrangement the sort may leave, then the pass.
\<close>

inductive FCFS_Start ::
  "Process list \<Rightarrow> Process list \<times> ProcessAverageMetrics \<Rightarrow> bool"
where
  "SortArrivalTimeAsceding ps qs \<Longrightarrow> FCFS_Start ps (FCFS_run qs)"

subsection \<open>SJFScheduler::Start\<close>

text \<open>
  The state of the \<^verbatim>\<open>while\<close> loop: the vector, the clock, the counter of finished
  processes and the running sums.
\<close>

record LoopState =
  processes :: "Process list"
  time_passed :: int
  finished_count :: nat
  metrics :: ProcessAverageMetrics

text \<open>
  The selection scan of lines 104--120.  \<open>all\<close> is the whole vector, \<open>i\<close> the index of
  the element under the iterator, \<open>thr\<close> is \<^verbatim>\<open>bt_threshold\<close>; the pointer
  \<^verbatim>\<open>pProcess\<close> is the index it points to, \<open>None\<close> for the null pointer.
\<close>

fun SJF_scan ::
  "int \<Rightarrow> Process list \<Rightarrow> nat \<Rightarrow> Process list \<Rightarrow> int \<Rightarrow> nat option \<Rightarrow> nat option"
where
  "SJF_scan t all i [] thr pProcess = pProcess"
| "SJF_scan t all i (process # rest) thr pProcess =
     (if finished process \<or> at' process > t then SJF_scan t all (Suc i) rest thr pProcess
      else
        let found = (bt process < thr);
            found = (if bt process = thr \<and> pProcess \<noteq> None
                     then at' process < at' (all ! the pProcess) else found)
        in if found then SJF_scan t all (Suc i) rest (bt process) (Some i)
           else SJF_scan t all (Suc i) rest thr pProcess)"

definition SJF_select :: "int \<Rightarrow> Process list \<Rightarrow> nat option" where
  "SJF_select t ps = SJF_scan t ps 0 ps INT_MAX None"

text \<open>Lines 127--141: the selected process runs to completion.\<close>

definition SJF_dispatch :: "nat \<Rightarrow> LoopState \<Rightarrow> LoopState" where
  "SJF_dispatch j s =
     (let p = processes s ! j;
          p = p\<lparr>st := time_passed s\<rparr>;
          p = p\<lparr>ct := st p + bt p\<rparr>;
          p = p\<lparr>tt := ct p - at' p\<rparr>;
          p = p\<lparr>rt := st p - at' p\<rparr>;
          p = p\<lparr>wt := tt p - bt p\<rparr>;
          m = accumulate (metrics s) p;
          p = p\<lparr>finished := True\<rparr>
      in \<lparr>processes = (processes s)[j := p], time_passed = ct p,
          finished_count = finished_count s + 1, metrics = m\<rparr>)"

text \<open>One iteration of the \<^verbatim>\<open>while\<close> body.\<close>

definition SJF_step :: "LoopState \<Rightarrow> LoopState" where
  "SJF_step s =
     (case SJF_select (time_passed s) (processes s) of
        None \<Rightarrow> s\<lparr>time_passed := time_passed s + 1\<rparr>
      | Some j \<Rightarrow> SJF_dispatch j s)"

text \<open>
  The \<^verbatim>\<open>while (finished_count < processes_count_)\<close> loop.  It may run forever, so it
  is a partial function: \<open>None\<close> is "does not return".
\<close>

partial_function (option) SJF_loop :: "LoopState \<Rightarrow> LoopState option" where
  "SJF_loop s =
     (if finished_count s < length (processes s) then SJF_loop (SJF_step s) else Some s)"

declare SJF_loop.simps [code]

definition SJF_init :: "Process list \<Rightarrow> LoopState" where
  "SJF_init ps = \<lparr>processes = ps, time_passed = 0, finished_count = 0, metrics = metrics0\<rparr>"

definition SJF_Start :: "Process list \<Rightarrow> (Process list \<times> ProcessAverageMetrics) option" where
  "SJF_Start ps =
     (case SJF_loop (SJF_init ps) of
        None \<Rightarrow> None
      | Some s \<Rightarrow> Some (processes s, average (metrics s) (length ps)))"

subsection \<open>RRScheduler::Start\<close>

text \<open>
  The loop state of the round-robin engine adds the FIFO queue of indices; its front is
  the head of the list.
\<close>

record RRState = LoopState +
  ready_indexes_queue :: "nat list"

text \<open>
  Two operations of the loop body have undefined behaviour when their precondition
  fails: \<^verbatim>\<open>front()\<close> on an empty queue and \<^verbatim>\<open>processes_[curr_index]\<close> with an
  index outside the vector.  Both are error values of the model.
\<close>

datatype error = EmptyQueue | BadIndex

text \<open>
  Lines 177--201: the slice of the process \<open>c\<close> that was taken from the queue.  \<open>q\<close> is
  \<^verbatim>\<open>quantum_\<close>.
\<close>

definition RR_dispatch :: "int \<Rightarrow> nat \<Rightarrow> RRState \<Rightarrow> RRState" where
  "RR_dispatch q c s =
     (let curr = processes s ! c;
          t = time_passed s;
          curr = (if rbt curr = bt curr then curr\<lparr>st := max t (at' curr)\<rparr> else curr);
          t = (if rbt curr = bt curr then st curr else t)
      in if rbt curr - q > 0 then
           s\<lparr>processes := (processes s)[c := curr\<lparr>rbt := rbt curr - q\<rparr>],
             time_passed := t + q\<rparr>
         else
           let t = t + rbt curr;
               curr = curr\<lparr>ct := t\<rparr>;
               curr = curr\<lparr>tt := ct curr - at' curr\<rparr>;
               curr = curr\<lparr>rt := st curr - at' curr\<rparr>;
               curr = curr\<lparr>wt := tt curr - bt curr\<rparr>;
               m = accumulate (metrics s) curr;
               curr = curr\<lparr>rbt := 0, finished := True\<rparr>
           in s\<lparr>processes := (processes s)[c := curr], time_passed := t,
                finished_count := finished_count s + 1, metrics := m\<rparr>)"

text \<open>
  Lines 203--214, the arrival sweep: the iterator walks the elements after the first,
  \<open>i\<close> is \<^verbatim>\<open>next_index\<close>, \<open>qu\<close> the queue.  The result is the walked part of the
  vector and the queue.
\<close>

fun RR_sweep_from ::
  "int \<Rightarrow> nat \<Rightarrow> Process list \<Rightarrow> nat list \<Rightarrow> Process list \<times> nat list"
where
  "RR_sweep_from t i [] qu = ([], qu)"
| "RR_sweep_from t i (p # rest) qu =
     (if queued p \<or> finished p then
        (let (rest', qu') = RR_sweep_from t (Suc i) rest qu in (p # rest', qu'))
      else if at' p \<le> t then
        (let (rest', qu') = RR_sweep_from t (Suc i) rest (qu @ [i])
         in (p\<lparr>queued := True\<rparr> # rest', qu'))
      else
        (let (rest', qu') = RR_sweep_from t (Suc i) rest qu in (p # rest', qu')))"

definition RR_sweep :: "RRState \<Rightarrow> RRState" where
  "RR_sweep s =
     (case processes s of
        [] \<Rightarrow> s
      | p0 # rest \<Rightarrow>
          let (rest', qu') = RR_sweep_from (time_passed s) 1 rest (ready_indexes_queue s)
          in s\<lparr>processes := p0 # rest', ready_indexes_queue := qu'\<rparr>)"

text \<open>Lines 216--218: the current process goes back to the tail unless it finished.\<close>

definition RR_requeue :: "nat \<Rightarrow> RRState \<Rightarrow> RRState" where
  "RR_requeue c s =
     (if \<not> finished (processes s ! c)
      then s\<lparr>ready_indexes_queue := ready_indexes_queue s @ [c]\<rparr> else s)"

text \<open>
  Lines 220--234, the scan that runs when the queue is empty: again from the second
  element, stopping (\<^verbatim>\<open>break\<close>) at the first process that is not finished.
\<close>

fun RR_recover_from :: "nat \<Rightarrow> Process list \<Rightarrow> nat list \<Rightarrow> Process list \<times> nat list" where
  "RR_recover_from i [] qu = ([], qu)"
| "RR_recover_from i (p # rest) qu =
     (if finished p then
        (let (rest', qu') = RR_recover_from (Suc i) rest qu in (p # rest', qu'))
      else (p\<lparr>queued := True\<rparr> # rest, qu @ [i]))"

definition RR_recover :: "RRState \<Rightarrow> RRState" where
  "RR_recover s =
     (if ready_indexes_queue s = [] then
        (case processes s of
           [] \<Rightarrow> s
         | p0 # rest \<Rightarrow>
             let (rest', qu') = RR_recover_from 1 rest (ready_indexes_queue s)
             in s\<lparr>processes := p0 # rest', ready_indexes_queue := qu'\<rparr>)
      else s)"

text \<open>One iteration of the \<^verbatim>\<open>while\<close> body, lines 172--234.\<close>

definition RR_step :: "int \<Rightarrow> RRState \<Rightarrow> error + RRState" where
  "RR_step q s =
     (case ready_indexes_queue s of
        [] \<Rightarrow> Inl EmptyQueue
      | curr_index # rest \<Rightarrow>
          if curr_index < length (processes s) then
            Inr (RR_recover (RR_requeue curr_index (RR_sweep
                   (RR_dispatch q curr_index (s\<lparr>ready_indexes_queue := rest\<rparr>)))))
          else Inl BadIndex)"

partial_function (option) RR_loop :: "int \<Rightarrow> RRState \<Rightarrow> (error + RRState) option" where
  "RR_loop q s =
     (if finished_count s < length (processes s) then
        (case RR_step q s of Inl e \<Rightarrow> Some (Inl e) | Inr s' \<Rightarrow> RR_loop q s')
      else Some (Inr s))"

declare RR_loop.simps [code]

definition RR_init :: "Process list \<Rightarrow> RRState" where
  "RR_init qs =
     \<lparr>processes = qs, time_passed = 0, finished_count = 0, metrics = metrics0,
      ready_indexes_queue = [0]\<rparr>"

text \<open>
  The part of \<^verbatim>\<open>RRScheduler::Start\<close> after the sort.  \<open>None\<close>: the loop does not
  return; \<open>Some (Inl e)\<close>: it runs into undefined behaviour; otherwise the final vector
  and the averages.
\<close>

definition RR_run ::
  "int \<Rightarrow> Process list \<Rightarrow> (error + Process list \<times> ProcessAverageMetrics) option"
where
  "RR_run q qs =
     (case RR_loop q (RR_init qs) of
        None \<Rightarrow> None
      | Some (Inl e) \<Rightarrow> Some (Inl e)
      | Some (Inr s) \<Rightarrow> Some (Inr (processes s, average (metrics s) (length qs))))"

inductive RR_Start ::
  "int \<Rightarrow> Process list \<Rightarrow> (error + Process list \<times> ProcessAverageMetrics) option \<Rightarrow> bool"
where
  "SortArrivalTimeAsceding ps qs \<Longrightarrow> RR_Start q ps (RR_run q qs)"

subsection \<open>The arrival sweep in closed form\<close>

text \<open>
  The test of the arrival sweep (lines 206--210): not queued, not finished, arrived by
  time \<open>t\<close>.
\<close>

definition arrives :: "int \<Rightarrow> Process \<Rightarrow> bool" where
  "arrives t p \<longleftrightarrow> \<not> queued p \<and> \<not> finished p \<and> at' p \<le> t"

text \<open>What the sweep does to one element.\<close>

definition mark :: "int \<Rightarrow> Process \<Rightarrow> Process" where
  "mark t p = (if arrives t p then p\<lparr>queued := True\<rparr> else p)"

text \<open>The vector after the arrival sweep: the first element is never touched.\<close>

definition sweep_marks :: "int \<Rightarrow> Process list \<Rightarrow> Process list" where
  "sweep_marks t ps = (case ps of [] \<Rightarrow> [] | p0 # rest \<Rightarrow> p0 # map (mark t) rest)"

subsection \<open>Predicates of the SJF selection and the loop invariants\<close>

text \<open>
  A process can be chosen by the SJF scan at time \<open>t\<close>: not finished and arrived.
\<close>

definition eligible :: "int \<Rightarrow> Process \<Rightarrow> bool" where
  "eligible t p \<longleftrightarrow> \<not> finished p \<and> at' p \<le> t"

text \<open>
  The order of the selection: shorter burst first, among equal bursts the earlier
  arrival.
\<close>

definition no_worse :: "Process \<Rightarrow> Process \<Rightarrow> bool" where
  "no_worse a b \<longleftrightarrow> bt a < bt b \<or> (bt a = bt b \<and> at' a \<le> at' b)"

text \<open>
  What holds of \<^verbatim>\<open>bt_threshold\<close> and \<^verbatim>\<open>pProcess\<close> after the scan has passed the
  first \<open>n\<close> elements.
\<close>

definition scan_inv :: "int \<Rightarrow> Process list \<Rightarrow> nat \<Rightarrow> int \<Rightarrow> nat option \<Rightarrow> bool" where
  "scan_inv t all n thr pProcess \<longleftrightarrow>
     (case pProcess of
        None \<Rightarrow> thr = INT_MAX \<and> (\<forall>k < n. eligible t (all ! k) \<longrightarrow> INT_MAX \<le> bt (all ! k))
      | Some j \<Rightarrow> j < n \<and> eligible t (all ! j) \<and> thr = bt (all ! j) \<and> thr < INT_MAX \<and>
                  (\<forall>k < n. eligible t (all ! k) \<longrightarrow> no_worse (all ! j) (all ! k)))"

text \<open>The identities every engine establishes when a process completes.\<close>

definition metrics_ok :: "Process \<Rightarrow> bool" where
  "metrics_ok p \<longleftrightarrow>
     tt p = ct p - at' p \<and> rt p = st p - at' p \<and> wt p = tt p - bt p"

text \<open>
  The invariant of the SJF loop: the counter counts the finished processes, and every
  finished process satisfies the two identities.
\<close>

definition SJF_inv :: "LoopState \<Rightarrow> bool" where
  "SJF_inv s \<longleftrightarrow>
     finished_count s = length (filter finished (processes s)) \<and>
     (\<forall>p \<in> set (processes s). finished p \<longrightarrow> metrics_ok p)"

text \<open>The state of the SJF loop at time \<open>t\<close> on the single process (0, INT_MAX).\<close>

definition sentinel_state :: "int \<Rightarrow> LoopState" where
  "sentinel_state t =
     \<lparr>processes = [mk_process 0 INT_MAX], time_passed = t, finished_count = 0,
      metrics = metrics0\<rparr>"

text \<open>
  The invariant of the round-robin loop.  The queue holds distinct valid indices of
  processes that are not finished; every queued index other than 0 carries the
  \<^verbatim>\<open>queued\<close> flag; process 0 is in the queue as long as it is not finished; the
  queue is empty only when every process is finished; the counter counts the finished
  processes; every finished process satisfies the two metric identities.
\<close>

definition RR_inv :: "RRState \<Rightarrow> bool" where
  "RR_inv s \<longleftrightarrow>
     distinct (ready_indexes_queue s) \<and>
     (\<forall>i \<in> set (ready_indexes_queue s).
        i < length (processes s) \<and> \<not> finished (processes s ! i) \<and>
        (0 < i \<longrightarrow> queued (processes s ! i))) \<and>
     (0 < length (processes s) \<and> \<not> finished (processes s ! 0)
        \<longrightarrow> 0 \<in> set (ready_indexes_queue s)) \<and>
     (ready_indexes_queue s = [] \<longrightarrow> (\<forall>k < length (processes s). finished (processes s ! k))) \<and>
     finished_count s = length (filter finished (processes s)) \<and>
     (\<forall>k < length (processes s). finished (processes s ! k) \<longrightarrow> metrics_ok (processes s ! k))"

text \<open>
  The state after dispatch, sweep and re-enqueue satisfies every part of the invariant
  except the one about the empty queue.
\<close>

definition RR_pre_inv :: "RRState \<Rightarrow> bool" where
  "RR_pre_inv s \<longleftrightarrow>
     distinct (ready_indexes_queue s) \<and>
     (\<forall>i \<in> set (ready_indexes_queue s).
        i < length (processes s) \<and> \<not> finished (processes s ! i) \<and>
        (0 < i \<longrightarrow> queued (processes s ! i))) \<and>
     (0 < length (processes s) \<and> \<not> finished (processes s ! 0)
        \<longrightarrow> 0 \<in> set (ready_indexes_queue s)) \<and>
     finished_count s = length (filter finished (processes s)) \<and>
     (\<forall>k < length (processes s). finished (processes s ! k) \<longrightarrow> metrics_ok (processes s ! k))"

text \<open>
  The measure that decreases with every round-robin step when the quantum is positive:
  the number of processes still to finish plus the remaining burst times.
\<close>

definition RR_measure :: "RRState \<Rightarrow> nat" where
  "RR_measure s =
     (length (processes s) - finished_count s) +
     sum_list (map (\<lambda>p. nat (rbt p)) (processes s))"

subsection \<open>ParseFile\<close>

text \<open>
  \<^verbatim>\<open>ParseFile\<close> is built from three library operations that are not part of the
  repository.  They are modelled from the C++ standard (C++11 and later; the README asks
  for C++17 at least).

  \<^verbatim>\<open>std::getline(stream, str, delim)\<close>: on a stream with no characters left the
  call fails; otherwise it takes the characters up to the next delimiter or the end of
  the stream, and removes the delimiter from the stream.  The stream is the string of
  characters still to be read.
\<close>

definition getline :: "char \<Rightarrow> string \<Rightarrow> (string \<times> string) option" where
  "getline delim stream =
     (if stream = [] then None
      else Some (takeWhile (\<lambda>c. c \<noteq> delim) stream,
                 drop 1 (dropWhile (\<lambda>c. c \<noteq> delim) stream)))"

text \<open>
  \<^verbatim>\<open>std::isspace\<close> and \<^verbatim>\<open>std::isdigit\<close> in the "C" locale.
\<close>

definition isspace :: "char \<Rightarrow> bool" where
  "isspace c \<longleftrightarrow> c \<in> set [CHR '' '', CHR 0x09, CHR 0x0A, CHR 0x0B, CHR 0x0C, CHR 0x0D]"

definition isdigit :: "char \<Rightarrow> bool" where
  "isdigit c \<longleftrightarrow> c \<in> set ''0123456789''"

definition digit_val :: "char \<Rightarrow> int" where
  "digit_val c = int (of_char c) - 48"

definition INT_MIN :: int where
  "INT_MIN = - 2147483648"

text \<open>
  \<^verbatim>\<open>token_stream >> v\<close> for an \<^verbatim>\<open>int\<close> on a fresh string stream over \<open>token\<close>:
  the new value of \<open>v\<close> and whether \<^verbatim>\<open>fail()\<close> holds afterwards.
  Leading white space is skipped.  If nothing is left, the extraction fails before any
  conversion and \<open>v\<close> keeps its old value.  Otherwise an optional sign and the longest
  run of decimal digits are converted: no digit stores 0 and fails; a value outside the
  range of \<^verbatim>\<open>int\<close> stores the nearest bound and fails.
\<close>

definition extract_int :: "string \<Rightarrow> int \<Rightarrow> int \<times> bool" where
  "extract_int token v =
     (let s = dropWhile isspace token in
      if s = [] then (v, True)
      else
        let neg = (hd s = CHR ''-'');
            s = (if hd s = CHR ''-'' \<or> hd s = CHR ''+'' then tl s else s);
            ds = takeWhile isdigit s;
            n = foldl (\<lambda>a c. 10 * a + digit_val c) 0 ds;
            n = (if neg then - n else n)
        in if ds = [] then (0, True)
           else if n > INT_MAX then (INT_MAX, True)
           else if n < INT_MIN then (INT_MIN, True)
           else (n, False))"

text \<open>
  The inner \<^verbatim>\<open>while\<close> loop of lines 324--338 over the tokens of one line.
  \<open>line_stream\<close> is what is left of the line, \<open>errs\<close> the lines written to
  \<^verbatim>\<open>std::cerr\<close> so far, \<open>report line\<close> the text of one such line.  No extraction happens for a token with index above 1, and
  \<^verbatim>\<open>fail()\<close> of the fresh token stream is false then.
\<close>

definition report :: "string \<Rightarrow> string" where
  "report line = ''Bad formatted input: '' @ line"

function ParseLine ::
  "string \<Rightarrow> string \<Rightarrow> nat \<Rightarrow> int \<Rightarrow> int \<Rightarrow> string list \<Rightarrow> int \<times> int \<times> string list"
where
  "ParseLine line line_stream token_index a b errs =
     (case getline CHR '' '' line_stream of
        None \<Rightarrow> (a, b, errs)
      | Some (token, line_stream') \<Rightarrow>
          let (a', fail_a) = (if token_index = 0 then extract_int token a else (a, False));
              (b', fail_b) = (if token_index = 1 then extract_int token b else (b, False));
              errs' = (if token_index > 1 \<or> fail_a \<or> fail_b
                       then errs @ [report line] else errs)
          in ParseLine line line_stream' (token_index + 1) a' b' errs')"
  by pat_completeness auto
termination
proof -
  have shorter: "length (dropWhile P xs) - Suc 0 < length xs" if "xs \<noteq> []"
    for P and xs :: string
    using that length_dropWhile_le [of P xs] by (cases xs) auto
  show ?thesis
    by (relation "measure (\<lambda>(line, line_stream, i, a, b, errs). length line_stream)")
       (auto simp: getline_def shorter split: if_splits)
qed

declare ParseLine.simps [simp del]

text \<open>
  The outer \<^verbatim>\<open>while\<close> loop of lines 318--341 over the lines of the file.  \<open>a\<close> and
  \<open>b\<close> are the variables \<^verbatim>\<open>at\<close> and \<^verbatim>\<open>bt\<close>, declared outside the loop.
\<close>

function ParseLines ::
  "string \<Rightarrow> int \<Rightarrow> int \<Rightarrow> Process list \<Rightarrow> string list \<Rightarrow> Process list \<times> string list"
where
  "ParseLines file_stream a b result errs =
     (case getline CHR 0x0A file_stream of
        None \<Rightarrow> (result, errs)
      | Some (line, file_stream') \<Rightarrow>
          let (a', b', errs') = ParseLine line line 0 a b errs
          in ParseLines file_stream' a' b' (result @ [mk_process a' b']) errs')"
  by pat_completeness auto
termination
proof -
  have shorter: "length (dropWhile P xs) - Suc 0 < length xs" if "xs \<noteq> []"
    for P and xs :: string
    using that length_dropWhile_le [of P xs] by (cases xs) auto
  show ?thesis
    by (relation "measure (\<lambda>(file_stream, a, b, result, errs). length file_stream)")
       (auto simp: getline_def shorter split: if_splits)
qed

declare ParseLines.simps [simp del]

text \<open>
  \<^verbatim>\<open>ParseFile\<close>: the argument is the content of the file, \<open>None\<close> when the stream
  cannot be opened.  The result is the vector and what was written to \<^verbatim>\<open>std::cerr\<close>.
\<close>

definition ParseFile :: "string option \<Rightarrow> Process list \<times> string list" where
  "ParseFile file =
     (case file of
        None \<Rightarrow> ([], [])
      | Some content \<Rightarrow> ParseLines content 0 0 [] [])"

subsection \<open>What the parser reads: lines, tokens, values\<close>

text \<open>
  The strings that successive \<^verbatim>\<open>std::getline\<close> calls deliver from a stream, in
  order: the lines of a file for the delimiter \<open>CHR 0x0A\<close>, the tokens of a line for the
  delimiter \<open>CHR '' ''\<close>.
\<close>

function getline_all :: "char \<Rightarrow> string \<Rightarrow> string list" where
  "getline_all delim stream =
     (case getline delim stream of
        None \<Rightarrow> []
      | Some (x, stream') \<Rightarrow> x # getline_all delim stream')"
  by pat_completeness auto
termination
proof -
  have shorter: "length (dropWhile P xs) - Suc 0 < length xs" if "xs \<noteq> []"
    for P and xs :: string
    using that length_dropWhile_le [of P xs] by (cases xs) auto
  show ?thesis
    by (relation "measure (\<lambda>(delim, stream). length stream)")
       (auto simp: getline_def shorter split: if_splits)
qed

declare getline_all.simps [simp del]

text \<open>
  The effect of the inner loop on the variables, by recursion over the tokens that are
  left on the line.
\<close>

fun ParseTokens ::
  "string \<Rightarrow> string list \<Rightarrow> nat \<Rightarrow> int \<Rightarrow> int \<Rightarrow> string list \<Rightarrow> int \<times> int \<times> string list"
where
  "ParseTokens line [] token_index a b errs = (a, b, errs)"
| "ParseTokens line (token # tokens) token_index a b errs =
     (let (a', fail_a) = (if token_index = 0 then extract_int token a else (a, False));
          (b', fail_b) = (if token_index = 1 then extract_int token b else (b, False));
          errs' = (if token_index > 1 \<or> fail_a \<or> fail_b
                   then errs @ [report line] else errs)
      in ParseTokens line tokens (token_index + 1) a' b' errs')"

text \<open>
  Whether the extraction from a token fails; it does not depend on the old value of the
  variable.
\<close>

definition token_fails :: "string \<Rightarrow> bool" where
  "token_fails token = snd (extract_int token 0)"

text \<open>
  The test of line 334 over the whole inner loop, as the code makes it: the line is
  written to \<^verbatim>\<open>std::cerr\<close> when it has more than two tokens or when the extraction
  from its first or second token fails.  This is not the specification's notion of a
  malformed line, which is \<open>spec_malformed\<close> below.
\<close>

definition reported :: "string \<Rightarrow> bool" where
  "reported line \<longleftrightarrow>
     (let tokens = getline_all CHR '' '' line
      in length tokens > 2 \<or> (tokens \<noteq> [] \<and> token_fails (tokens ! 0)) \<or>
         (length tokens \<ge> 2 \<and> token_fails (tokens ! 1)))"

text \<open>The values of the two variables after a line, from their values before it.\<close>

definition line_values :: "string \<Rightarrow> int \<times> int \<Rightarrow> int \<times> int" where
  "line_values line v =
     (let tokens = getline_all CHR '' '' line
      in (if tokens = [] then fst v else fst (extract_int (tokens ! 0) (fst v)),
          if length tokens < 2 then snd v else fst (extract_int (tokens ! 1) (snd v))))"

fun parsed_values :: "string list \<Rightarrow> int \<times> int \<Rightarrow> (int \<times> int) list" where
  "parsed_values [] v = []"
| "parsed_values (line # lines) v = line_values line v # parsed_values lines (line_values line v)"

definition newline :: char where
  "newline = CHR 0x0A"

subsection \<open>The input format in the words of the specification\<close>

text \<open>
  The specification describes the input as space-separated integers, one record of two
  per line, and calls a line with more than two tokens or with a non-numeric token a
  format error.  The definitions of this subsection follow those words, not the code: a
  token is numeric when it is an optional sign followed by one or more decimal digits
  and nothing else; \<open>spec_value\<close> is the integer it denotes.  The tokens of a line are the
  strings between its spaces, as the code splits them.
\<close>

definition spec_digits :: "string \<Rightarrow> string" where
  "spec_digits token =
     (if token \<noteq> [] \<and> (hd token = CHR ''-'' \<or> hd token = CHR ''+'') then tl token else token)"

definition spec_numeric :: "string \<Rightarrow> bool" where
  "spec_numeric token \<longleftrightarrow> spec_digits token \<noteq> [] \<and> list_all isdigit (spec_digits token)"

definition spec_value :: "string \<Rightarrow> int" where
  "spec_value token =
     (let n = foldl (\<lambda>a c. 10 * a + digit_val c) 0 (spec_digits token)
      in if token \<noteq> [] \<and> hd token = CHR ''-'' then - n else n)"

text \<open>A malformed line: more than two tokens, or a token that is not numeric.\<close>

definition spec_malformed :: "string \<Rightarrow> bool" where
  "spec_malformed line \<longleftrightarrow>
     (let tokens = getline_all CHR '' '' line
      in length tokens > 2 \<or> list_ex (\<lambda>token. \<not> spec_numeric token) tokens)"

text \<open>A well-formed line: exactly two numeric tokens, each within the range of \<^verbatim>\<open>int\<close>.\<close>

definition spec_well_formed :: "string \<Rightarrow> bool" where
  "spec_well_formed line \<longleftrightarrow>
     (let tokens = getline_all CHR '' '' line
      in length tokens = 2 \<and>
         list_all (\<lambda>token. spec_numeric token \<and> INT_MIN \<le> spec_value token \<and>
                            spec_value token \<le> INT_MAX) tokens)"

subsection \<open>The sample input of the README\<close>

definition sample_input :: "Process list" where
  "sample_input = [mk_process 0 20, mk_process 0 10, mk_process 4 6, mk_process 4 8]"

text \<open>What a test reads off a process: arrival, burst, start and completion time.\<close>

definition timing :: "Process \<Rightarrow> int \<times> int \<times> int \<times> int" where
  "timing p = (at' p, bt p, st p, ct p)"


text \<open>An input whose average turnaround time is not a binary32 value.\<close>

definition thirds_input :: "Process list" where
  "thirds_input = [mk_process 0 2, mk_process 0 2, mk_process 0 3]"


definition gap_input :: "Process list" where
  "gap_input = [mk_process 0 2, mk_process 10 4, mk_process 11 1]"


text \<open>Two input files: one with the line \<open>0 abc\<close>, one with a short line after it.\<close>

definition malformed_file :: string where
  "malformed_file = ''0 abc'' @ [newline] @ ''4 6'' @ [newline]"

definition carry_file :: string where
  "carry_file = ''3 7'' @ [newline] @ ''0 abc'' @ [newline] @ ''5'' @ [newline]"

text \<open>A file whose only line has two tokens that start with digits and go on with letters.\<close>

definition prefix_file :: string where
  "prefix_file = ''12abc 4x'' @ [newline]"

section \<open>Values that \<^verbatim>\<open>float\<close> holds exactly\<close>

text \<open>
  An integer of magnitude below \<open>2\<^sup>2\<^sup>4\<close>, divided by a power of two up to \<open>2\<^sup>1\<^sup>2\<^sup>5\<close>, is a
  binary32 value: rounding leaves it as it is.  The code equation uses this for integers
  and for multiples of \<open>1 / 1024\<close>, and rounds every other value as the definition says.
\<close>

lemma bits_pos: "0 < n \<Longrightarrow> bits n = Suc (bits (n div 2))"
  by (subst bits.simps) simp

lemma bits_shift: "0 < n \<Longrightarrow> bits (n * 2 ^ k) = bits n + k"
proof (induction k)
  case 0
  then show ?case by simp
next
  case (Suc k)
  have "0 < n * 2 ^ Suc k" using Suc.prems by simp
  then have "bits (n * 2 ^ Suc k) = Suc (bits ((n * 2 ^ Suc k) div 2))" by (rule bits_pos)
  also have "(n * 2 ^ Suc k) div 2 = n * 2 ^ k" by simp
  finally show ?case using Suc by simp
qed

lemma bits_bound: "n < 2 ^ k \<Longrightarrow> bits n \<le> k"
proof (induction k arbitrary: n)
  case 0
  then show ?case by (subst bits.simps) simp
next
  case (Suc k)
  show ?case
  proof (cases "0 < n")
    case True
    have "n div 2 < 2 ^ k" using Suc.prems by simp
    then have "bits (n div 2) \<le> k" by (rule Suc.IH)
    then show ?thesis using bits_pos [OF True] by simp
  next
    case False
    then show ?thesis by (subst bits.simps) simp
  qed
qed

lemma round_half_even_of_int: "round_half_even (of_int z) = z"
  by (simp add: round_half_even_def)

lemma to_float_exact:
  assumes n: "\<bar>n\<bar> < 2 ^ 24" and k: "k \<le> 125"
  shows "to_float (of_int n / 2 ^ k) = Finite (of_int n / 2 ^ k)"
proof (cases "n = 0")
  case True
  have r: "round_half_even 0 = 0" using round_half_even_of_int [of 0] by simp
  have z: "bits 0 = 0" by (subst bits.simps) simp
  show ?thesis using True by (simp add: to_float_def z r FLT_MAX_def)
next
  case False
  define a where "a = \<bar>n\<bar>"
  have a0: "0 < a" and a24: "a < 2 ^ 24" using False n by (simp_all add: a_def)
  define j where "j = 149 - k"
  have kj: "149 = k + j" using k by (simp add: j_def)
  define b where "b = bits a"
  have b24: "b \<le> 24" unfolding b_def using a24 by (rule bits_bound)
  define e where "e = b + j - 24"
  define c where "c = 24 - b"
  have ec: "j = e + c" using b24 k by (simp add: e_def c_def j_def)
  define x :: rat where "x = of_int n / 2 ^ k"
  have absx: "\<bar>x\<bar> = of_int a / 2 ^ k" by (simp add: x_def a_def)
  have y: "\<bar>x\<bar> * 2 ^ 149 = of_int (a * 2 ^ j)"
    unfolding absx kj by (simp add: power_add)
  have fl: "\<lfloor>\<bar>x\<bar> * 2 ^ 149\<rfloor> = a * 2 ^ j" by (simp only: y floor_of_int)
  have bt: "bits (a * 2 ^ j) - 24 = e" using bits_shift [OF a0, of j] by (simp add: e_def b_def)
  have q: "(of_int (a * 2 ^ j) :: rat) / 2 ^ e = of_int (a * 2 ^ c)"
    unfolding ec by (simp add: power_add)
  have v: "(of_int (a * 2 ^ c) :: rat) * 2 ^ e / 2 ^ 149 = \<bar>x\<bar>"
    unfolding absx kj ec by (simp add: power_add)
  have "\<bar>x\<bar> \<le> of_int a" unfolding absx using a0
    by (simp add: divide_le_eq)
  also have "\<dots> \<le> 2 ^ 24" using a24 by (metis less_imp_le of_int_le_iff of_int_numeral of_int_power)
  also have "\<dots> \<le> FLT_MAX" by (simp add: FLT_MAX_def)
  finally have mx: "\<not> \<bar>x\<bar> > FLT_MAX" by simp
  have "to_float x = (if \<bar>x\<bar> > FLT_MAX then (if x < 0 then NInf else PInf)
       else Finite (if x < 0 then - \<bar>x\<bar> else \<bar>x\<bar>))"
    by (simp only: to_float_def Let_def y floor_of_int bt q round_half_even_of_int v)
  then have "to_float x = Finite (if x < 0 then - \<bar>x\<bar> else \<bar>x\<bar>)"
    using mx by simp
  then show ?thesis unfolding x_def by (simp add: abs_if)
qed

lemma to_float_code [code]:
  "to_float x = (if x = of_int \<lfloor>x\<rfloor> \<and> \<bar>x\<bar> < 16777216 then Finite x
     else if x * 1024 = of_int \<lfloor>x * 1024\<rfloor> \<and> \<bar>x * 1024\<bar> < 16777216 then Finite x
     else (let y = \<bar>x\<bar> * 2 ^ 149; e = bits \<lfloor>y\<rfloor> - 24;
            m = round_half_even (y / 2 ^ e); v = of_int m * 2 ^ e / 2 ^ 149
          in if v > FLT_MAX then (if x < 0 then NInf else PInf) else Finite (if x < 0 then - v else v)))"
proof -
  have a: "to_float x = Finite x" if "x = of_int \<lfloor>x\<rfloor>" "\<bar>x\<bar> < 16777216"
  proof -
    have "(of_int \<bar>\<lfloor>x\<rfloor>\<bar> :: rat) < of_int 16777216" using that by simp
    then have "\<bar>\<lfloor>x\<rfloor>\<bar> < 2 ^ 24" unfolding of_int_less_iff by simp
    then show ?thesis using to_float_exact [of "\<lfloor>x\<rfloor>" 0] that(1) by simp
  qed
  have b: "to_float x = Finite x" if "x * 1024 = of_int \<lfloor>x * 1024\<rfloor>" "\<bar>x * 1024\<bar> < 16777216"
  proof -
    have "(of_int \<bar>\<lfloor>x * 1024\<rfloor>\<bar> :: rat) < of_int 16777216" using that by simp
    then have "\<bar>\<lfloor>x * 1024\<rfloor>\<bar> < 2 ^ 24" unfolding of_int_less_iff by simp
    moreover have "x = of_int \<lfloor>x * 1024\<rfloor> / 2 ^ 10" using that(1) by simp
    ultimately show ?thesis using to_float_exact [of "\<lfloor>x * 1024\<rfloor>" 10] by simp
  qed
  show ?thesis using a b by (auto simp: to_float_def)
qed

section \<open>Claim C1: the SJF schedule of the sample input\<close>

text \<open>
  C1 (as stated): on the sample input SJF runs (0,10) over [0,10), then (0,20) over
  [10,30), then (4,6) over [30,36), then (4,8) over [36,44).  The engine does not do
  this: at time 10 the processes (4,6) and (4,8) have arrived and are shorter than
  (0,20).  The process (0,20) starts at 24, not at 10.
\<close>

theorem C1_counterexample:
  "\<not> (\<exists>ps m. SJF_Start sample_input = Some (ps, m) \<and>
         map timing ps = [(0, 20, 10, 30), (0, 10, 0, 10), (4, 6, 30, 36), (4, 8, 36, 44)])"
proof -
  have "map_option (map timing \<circ> fst) (SJF_Start sample_input) =
        Some [(0, 20, 24, 44), (0, 10, 0, 10), (4, 6, 10, 16), (4, 8, 16, 24)]"
    by code_simp
  then show ?thesis by auto
qed

text \<open>
  C1 (amended): on the sample input the SJF engine returns, and its schedule is
  (0,10) over [0,10), then (4,6) over [10,16), then (4,8) over [16,24), then (0,20) over
  [24,44); every process is finished.
\<close>

theorem C1_sjf_sample_schedule:
  "map_option (\<lambda>(ps, m). (map timing ps, map finished ps)) (SJF_Start sample_input) =
     Some ([(0, 20, 24, 44), (0, 10, 0, 10), (4, 6, 10, 16), (4, 8, 16, 24)],
           [True, True, True, True])"
  by code_simp

section \<open>Claim C2: the arrival sort and FCFS on the sample input\<close>



section \<open>Claim C5: the FCFS pass\<close>



lemma FCFS_loop_length: "length (fst (FCFS_loop i ps m)) = length ps"
proof (induction i ps m rule: FCFS_loop.induct)
  case (1 i ps m)
  show ?case
  proof (cases "i < length ps")
    case True
    then show ?thesis using 1 by (subst FCFS_loop.simps) (simp add: Let_def)
  next
    case False
    then show ?thesis by (subst FCFS_loop.simps) simp
  qed
qed

lemma FCFS_loop_before:
  "j < i \<Longrightarrow> fst (FCFS_loop i ps m) ! j = ps ! j"
proof (induction i ps m rule: FCFS_loop.induct)
  case (1 i ps m)
  show ?case
  proof (cases "i < length ps")
    case True
    then show ?thesis using 1 by (subst FCFS_loop.simps) (simp add: Let_def)
  next
    case False
    then show ?thesis by (subst FCFS_loop.simps) simp
  qed
qed

lemma FCFS_loop_fields:
  "i \<le> j \<Longrightarrow> j < length ps \<Longrightarrow> ps' = fst (FCFS_loop i ps m) \<Longrightarrow>
     at' (ps' ! j) = at' (ps ! j) \<and> bt (ps' ! j) = bt (ps ! j) \<and>
     st (ps' ! j) = (if j = 0 then at' (ps ! j) else max (at' (ps ! j)) (ct (ps' ! (j - 1)))) \<and>
     ct (ps' ! j) = st (ps' ! j) + bt (ps ! j) \<and>
     tt (ps' ! j) = ct (ps' ! j) - at' (ps ! j) \<and>
     rt (ps' ! j) = st (ps' ! j) - at' (ps ! j) \<and>
     wt (ps' ! j) = tt (ps' ! j) - bt (ps ! j)"
proof (induction i ps m arbitrary: ps' rule: FCFS_loop.induct)
  case (1 i ps m)
  from 1(2,3) have il: "i < length ps" by simp
  define p where "p = (let p = ps ! i;
            p = p\<lparr>st := (if i = 0 then at' p else max (at' p) (ct (ps ! (i - 1))))\<rparr>;
            p = p\<lparr>ct := st p + bt p\<rparr>;
            p = p\<lparr>tt := ct p - at' p\<rparr>;
            p = p\<lparr>rt := st p - at' p\<rparr>;
            p = p\<lparr>wt := tt p - bt p\<rparr> in p)"
  have unf: "FCFS_loop i ps m = FCFS_loop (i + 1) (ps[i := p]) (accumulate m p)"
    using il by (subst FCFS_loop.simps) (simp add: p_def Let_def)
  have ps': "ps' = fst (FCFS_loop (i + 1) (ps[i := p]) (accumulate m p))"
    using 1(4) unf by simp
  show ?case
  proof (cases "j = i")
    case True
    have a: "ps' ! i = p" using ps' FCFS_loop_before [of i "i + 1" "ps[i := p]"] il by simp
    have b: "i > 0 \<Longrightarrow> ps' ! (i - 1) = ps ! (i - 1)"
      using ps' FCFS_loop_before [of "i - 1" "i + 1" "ps[i := p]"] il by simp
    show ?thesis unfolding True a using b by (auto simp: p_def Let_def)
  next
    case False
    then have "i + 1 \<le> j" using 1(2) by simp
    moreover have "j < length (ps[i := p])" using 1(3) by simp
    ultimately have "at' (ps' ! j) = at' (ps[i := p] ! j) \<and> bt (ps' ! j) = bt (ps[i := p] ! j) \<and>
     st (ps' ! j) = (if j = 0 then at' (ps[i := p] ! j) else max (at' (ps[i := p] ! j)) (ct (ps' ! (j - 1)))) \<and>
     ct (ps' ! j) = st (ps' ! j) + bt (ps[i := p] ! j) \<and>
     tt (ps' ! j) = ct (ps' ! j) - at' (ps[i := p] ! j) \<and>
     rt (ps' ! j) = st (ps' ! j) - at' (ps[i := p] ! j) \<and>
     wt (ps' ! j) = tt (ps' ! j) - bt (ps[i := p] ! j)"
      using "1.IH" [OF il refl refl refl refl refl refl, of ps'] ps' by (simp add: p_def Let_def)
    then show ?thesis using False by simp
  qed
qed

lemma FCFS_loop_metrics:
  "ps' = fst (FCFS_loop i ps m) \<Longrightarrow> m' = snd (FCFS_loop i ps m) \<Longrightarrow>
     ProcessAverageMetrics.tt m' =
       foldl fadd (ProcessAverageMetrics.tt m) (map (\<lambda>p. float_of_int (tt p)) (drop i ps')) \<and>
     ProcessAverageMetrics.rt m' =
       foldl fadd (ProcessAverageMetrics.rt m) (map (\<lambda>p. float_of_int (rt p)) (drop i ps')) \<and>
     ProcessAverageMetrics.wt m' =
       foldl fadd (ProcessAverageMetrics.wt m) (map (\<lambda>p. float_of_int (wt p)) (drop i ps'))"
proof (induction i ps m arbitrary: ps' m' rule: FCFS_loop.induct)
  case (1 i ps m)
  show ?case
  proof (cases "i < length ps")
    case il: True
    define p where "p = (let p = ps ! i;
            p = p\<lparr>st := (if i = 0 then at' p else max (at' p) (ct (ps ! (i - 1))))\<rparr>;
            p = p\<lparr>ct := st p + bt p\<rparr>;
            p = p\<lparr>tt := ct p - at' p\<rparr>;
            p = p\<lparr>rt := st p - at' p\<rparr>;
            p = p\<lparr>wt := tt p - bt p\<rparr> in p)"
    have unf: "FCFS_loop i ps m = FCFS_loop (i + 1) (ps[i := p]) (accumulate m p)"
      using il by (subst FCFS_loop.simps) (simp add: p_def Let_def)
    have len: "length ps' = length ps" using 1(2) FCFS_loop_length by simp
    have a: "ps' ! i = p" using 1(2) unf FCFS_loop_before [of i "i + 1" "ps[i := p]"] il by simp
    have d: "drop i ps' = p # drop (i + 1) ps'"
      using a il len by (metis Cons_nth_drop_Suc Suc_eq_plus1)
    have "ProcessAverageMetrics.tt m' =
       foldl fadd (ProcessAverageMetrics.tt (accumulate m p))
         (map (\<lambda>p. float_of_int (tt p)) (drop (i + 1) ps')) \<and>
     ProcessAverageMetrics.rt m' =
       foldl fadd (ProcessAverageMetrics.rt (accumulate m p))
         (map (\<lambda>p. float_of_int (rt p)) (drop (i + 1) ps')) \<and>
     ProcessAverageMetrics.wt m' =
       foldl fadd (ProcessAverageMetrics.wt (accumulate m p))
         (map (\<lambda>p. float_of_int (wt p)) (drop (i + 1) ps'))"
      using "1.IH" [OF il refl refl refl refl refl refl, of ps' m'] 1(2,3) unf by (simp add: p_def Let_def)
    then show ?thesis unfolding d by (simp add: accumulate_def)
  next
    case False
    then have "FCFS_loop i ps m = (ps, m)" by (subst FCFS_loop.simps) simp
    then show ?thesis using False 1(2,3) by simp
  qed
qed

text \<open>
  C5: in the vector the FCFS engine leaves (the processes in the ascending arrival order
  \<open>qs\<close> produced by the sort), the first process starts at its arrival time, every
  later process starts at the maximum of its arrival time and the completion time of its
  predecessor, every process completes at start time plus burst time, and its turnaround,
  response and wait time are derived from these.  Each returned metric is the
  \<^verbatim>\<open>float\<close> sum of that metric over the processes, accumulated in vector order from
  zero, divided in \<^verbatim>\<open>float\<close> by the process count.
\<close>

theorem C5_fcfs_pass:
  assumes "FCFS_Start ps (ps', m)"
  shows "\<exists>qs. SortArrivalTimeAsceding ps qs \<and> length ps' = length qs \<and>
           (\<forall>i < length qs.
              at' (ps' ! i) = at' (qs ! i) \<and> bt (ps' ! i) = bt (qs ! i) \<and>
              st (ps' ! i) =
                (if i = 0 then at' (qs ! i) else max (at' (qs ! i)) (ct (ps' ! (i - 1)))) \<and>
              ct (ps' ! i) = st (ps' ! i) + bt (qs ! i) \<and>
              tt (ps' ! i) = ct (ps' ! i) - at' (qs ! i) \<and>
              rt (ps' ! i) = st (ps' ! i) - at' (qs ! i) \<and>
              wt (ps' ! i) = tt (ps' ! i) - bt (qs ! i)) \<and>
           m = \<lparr>ProcessAverageMetrics.tt =
                  fdiv (foldl fadd (Finite 0) (map (\<lambda>p. float_of_int (tt p)) ps'))
                       (float_of_size (length ps)),
                rt = fdiv (foldl fadd (Finite 0) (map (\<lambda>p. float_of_int (rt p)) ps'))
                       (float_of_size (length ps)),
                wt = fdiv (foldl fadd (Finite 0) (map (\<lambda>p. float_of_int (wt p)) ps'))
                       (float_of_size (length ps))\<rparr>"
proof -
  from assms(1) obtain qs where srt: "SortArrivalTimeAsceding ps qs"
    and run: "(ps', m) = FCFS_run qs"
    by (cases rule: FCFS_Start.cases) auto
  define m0 where "m0 = snd (FCFS_loop 0 qs metrics0)"
  have "FCFS_run qs = (fst (FCFS_loop 0 qs metrics0), average m0 (length qs))"
    by (simp add: FCFS_run_def case_prod_beta m0_def)
  with run have ps': "ps' = fst (FCFS_loop 0 qs metrics0)" and m: "m = average m0 (length qs)"
    by simp_all
  have len: "length ps' = length qs"
    unfolding ps' by (rule FCFS_loop_length)
  have "length qs = length ps"
    using srt mset_eq_length [of qs ps] by (simp add: SortArrivalTimeAsceding_def)
  then have m': "m = average m0 (length ps)" using m by simp
  have fields: "at' (ps' ! i) = at' (qs ! i) \<and> bt (ps' ! i) = bt (qs ! i) \<and>
              st (ps' ! i) =
                (if i = 0 then at' (qs ! i) else max (at' (qs ! i)) (ct (ps' ! (i - 1)))) \<and>
              ct (ps' ! i) = st (ps' ! i) + bt (qs ! i) \<and>
              tt (ps' ! i) = ct (ps' ! i) - at' (qs ! i) \<and>
              rt (ps' ! i) = st (ps' ! i) - at' (qs ! i) \<and>
              wt (ps' ! i) = tt (ps' ! i) - bt (qs ! i)" if "i < length qs" for i
    using FCFS_loop_fields [OF le0 that ps'] .
  have sums: "ProcessAverageMetrics.tt m0 =
       foldl fadd (Finite 0) (map (\<lambda>p. float_of_int (tt p)) ps') \<and>
     ProcessAverageMetrics.rt m0 =
       foldl fadd (Finite 0) (map (\<lambda>p. float_of_int (rt p)) ps') \<and>
     ProcessAverageMetrics.wt m0 =
       foldl fadd (Finite 0) (map (\<lambda>p. float_of_int (wt p)) ps')"
    using FCFS_loop_metrics [OF ps' m0_def] by (simp add: metrics0_def)
  have avg: "m = \<lparr>ProcessAverageMetrics.tt =
                  fdiv (foldl fadd (Finite 0) (map (\<lambda>p. float_of_int (tt p)) ps'))
                       (float_of_size (length ps)),
                rt = fdiv (foldl fadd (Finite 0) (map (\<lambda>p. float_of_int (rt p)) ps'))
                       (float_of_size (length ps)),
                wt = fdiv (foldl fadd (Finite 0) (map (\<lambda>p. float_of_int (wt p)) ps'))
                       (float_of_size (length ps))\<rparr>"
    using sums m' by (simp add: average_def)
  from srt len fields avg show ?thesis by blast
qed

text \<open>
  Three processes (0,2), (0,2), (0,3): the turnaround times are 2, 4, 7, and the average
  13 / 3 is not a binary32 value.
\<close>

theorem C5_fcfs_pass_witness:
  "FCFS_Start thirds_input (FCFS_run thirds_input) \<and>
   map timing (fst (FCFS_run thirds_input)) = [(0, 2, 0, 2), (0, 2, 2, 4), (0, 3, 4, 7)] \<and>
   map tt (fst (FCFS_run thirds_input)) = [2, 4, 7] \<and>
   ProcessAverageMetrics.tt (snd (FCFS_run thirds_input)) = Finite (9087659 / 2097152) \<and>
   ProcessAverageMetrics.tt (snd (FCFS_run thirds_input)) =
     fdiv (foldl fadd (Finite 0) (map (\<lambda>p. float_of_int (tt p)) (fst (FCFS_run thirds_input))))
          (float_of_size (length thirds_input))"
proof -
  have a: "SortArrivalTimeAsceding thirds_input thirds_input"
    by (simp add: SortArrivalTimeAsceding_def thirds_input_def mk_process_def)
  have b: "FCFS_Start thirds_input (FCFS_run thirds_input)"
    by (rule FCFS_Start.intros [OF a])
  then have b': "FCFS_Start thirds_input (fst (FCFS_run thirds_input), snd (FCFS_run thirds_input))"
    by simp
  obtain qs where "snd (FCFS_run thirds_input) =
       \<lparr>ProcessAverageMetrics.tt =
          fdiv (foldl fadd (Finite 0) (map (\<lambda>p. float_of_int (tt p)) (fst (FCFS_run thirds_input))))
               (float_of_size (length thirds_input)),
        rt = fdiv (foldl fadd (Finite 0) (map (\<lambda>p. float_of_int (rt p)) (fst (FCFS_run thirds_input))))
               (float_of_size (length thirds_input)),
        wt = fdiv (foldl fadd (Finite 0) (map (\<lambda>p. float_of_int (wt p)) (fst (FCFS_run thirds_input))))
               (float_of_size (length thirds_input))\<rparr>"
    using C5_fcfs_pass [OF b'] by blast
  then have c: "ProcessAverageMetrics.tt (snd (FCFS_run thirds_input)) =
     fdiv (foldl fadd (Finite 0) (map (\<lambda>p. float_of_int (tt p)) (fst (FCFS_run thirds_input))))
          (float_of_size (length thirds_input))"
    by simp
  have d: "map timing (fst (FCFS_run thirds_input)) = [(0, 2, 0, 2), (0, 2, 2, 4), (0, 3, 4, 7)]"
    by code_simp
  have e: "map tt (fst (FCFS_run thirds_input)) = [2, 4, 7]" by code_simp
  have f: "ProcessAverageMetrics.tt (snd (FCFS_run thirds_input)) = Finite (9087659 / 2097152)"
    by code_simp
  show ?thesis using b c d e f by (intro conjI)
qed

section \<open>The parser in closed form\<close>

lemma ParseLine_tokens:
  "ParseLine line line_stream k a b errs =
     ParseTokens line (getline_all CHR '' '' line_stream) k a b errs"
proof (induction line line_stream k a b errs rule: ParseLine.induct)
  case (1 line line_stream k a b errs)
  show ?case
  proof (cases "getline CHR '' '' line_stream")
    case None
    then show ?thesis
      by (subst ParseLine.simps, subst getline_all.simps) simp
  next
    case (Some r)
    obtain token rest where r: "r = (token, rest)" by (cases r)
    obtain a' fa where ea: "(if k = 0 then extract_int token a else (a, False)) = (a', fa)"
      by (cases "if k = 0 then extract_int token a else (a, False)")
    obtain b' fb where eb: "(if k = 1 then extract_int token b else (b, False)) = (b', fb)"
      by (cases "if k = 1 then extract_int token b else (b, False)")
    have ga: "getline_all CHR '' '' line_stream = token # getline_all CHR '' '' rest"
      using Some r by (subst getline_all.simps) simp
    have step: "ParseLine line line_stream k a b errs =
       ParseLine line rest (k + 1) a' b'
         (if k > 1 \<or> fa \<or> fb then errs @ [report line] else errs)"
      using Some r ea eb by (subst ParseLine.simps) (simp add: Let_def)
    have ih: "ParseLine line rest (k + 1) a' b'
         (if k > 1 \<or> fa \<or> fb then errs @ [report line] else errs) =
        ParseTokens line (getline_all CHR '' '' rest) (k + 1) a' b'
         (if k > 1 \<or> fa \<or> fb then errs @ [report line] else errs)"
      using "1.IH" [OF Some r [symmetric] ea [symmetric] refl eb [symmetric] refl refl] .
    show ?thesis unfolding step ih ga using ea eb by (simp add: Let_def)
  qed
qed


lemma extract_int_fails: "snd (extract_int token v) = token_fails token"
  by (simp add: extract_int_def token_fails_def Let_def)

lemma ParseTokens_ge2:
  "2 \<le> k \<Longrightarrow> ParseTokens line tokens k a b errs =
     (a, b, errs @ replicate (length tokens) (report line))"
proof (induction tokens arbitrary: k errs)
  case Nil
  then show ?case by simp
next
  case (Cons t ts)
  have "ParseTokens line (t # ts) k a b errs =
        ParseTokens line ts (k + 1) a b (errs @ [report line])"
    using Cons.prems by simp
  also have "\<dots> = (a, b, (errs @ [report line]) @
       replicate (length ts) (report line))"
    using Cons.prems by (intro Cons.IH) simp
  finally show ?case by (simp add: replicate_app_Cons_same)
qed

lemma ParseTokens_1:
  "\<exists>n. ParseTokens line tokens 1 a b errs =
     (a, if tokens = [] then b else fst (extract_int (tokens ! 0) b),
      errs @ replicate n (report line)) \<and>
     (0 < n \<longleftrightarrow> length tokens > 1 \<or> (tokens \<noteq> [] \<and> token_fails (tokens ! 0)))"
proof (cases tokens)
  case Nil
  then show ?thesis by simp
next
  case (Cons t ts)
  obtain b' fb where e: "extract_int t b = (b', fb)" by (cases "extract_int t b")
  then have fb: "fb = token_fails t" using extract_int_fails [of t b] by simp
  have "ParseTokens line tokens 1 a b errs =
        ParseTokens line ts 2 a b'
          (if fb then errs @ [report line] else errs)"
    using Cons e by (simp add: numeral_2_eq_2)
  also have "\<dots> = (a, b', (if fb then errs @ [report line] else errs) @
       replicate (length ts) (report line))"
    by (rule ParseTokens_ge2) simp
  also have "\<dots> = (a, b', errs @
       replicate ((if fb then 1 else 0) + length ts) (report line))"
    by (simp add: replicate_app_Cons_same)
  finally show ?thesis using Cons e fb
    by (intro exI [of _ "(if fb then 1 else 0) + length ts"]) auto
qed

lemma ParseTokens_0:
  "\<exists>n. ParseTokens line (getline_all CHR '' '' line) 0 a b errs =
     (fst (line_values line (a, b)), snd (line_values line (a, b)),
      errs @ replicate n (report line)) \<and>
     (0 < n \<longleftrightarrow> reported line)"
proof (cases "getline_all CHR '' '' line")
  case Nil
  then show ?thesis by (simp add: line_values_def reported_def)
next
  case (Cons t ts)
  obtain a' fa where e: "extract_int t a = (a', fa)" by (cases "extract_int t a")
  then have fa: "fa = token_fails t" using extract_int_fails [of t a] by simp
  define errs1 where "errs1 = (if fa then errs @ [report line] else errs)"
  obtain n where n: "ParseTokens line ts 1 a' b errs1 =
     (a', if ts = [] then b else fst (extract_int (ts ! 0) b),
      errs1 @ replicate n (report line))"
    and n0: "0 < n \<longleftrightarrow> length ts > 1 \<or> (ts \<noteq> [] \<and> token_fails (ts ! 0))"
    using ParseTokens_1 [of line ts a' b errs1] by blast
  have step: "ParseTokens line (t # ts) 0 a b errs = ParseTokens line ts 1 a' b errs1"
    using e by (simp add: errs1_def)
  have vals: "line_values line (a, b) = (a', if ts = [] then b else fst (extract_int (ts ! 0) b))"
    using Cons e by (cases ts) (simp_all add: line_values_def)
  have errs: "errs1 @ replicate n (report line) =
     errs @ replicate ((if fa then 1 else 0) + n) (report line)"
    by (simp add: errs1_def replicate_app_Cons_same)
  have rep: "reported line \<longleftrightarrow> fa \<or> 0 < n"
    using Cons fa n0 by (cases ts) (auto simp: reported_def Let_def)
  show ?thesis
    unfolding Cons [symmetric] 
    using step n vals errs rep Cons
    by (intro exI [of _ "(if fa then 1 else 0) + n"]) (auto simp: Cons)
qed


lemma ParseLines_closed:
  "\<exists>es. ParseLines stream a b result errs =
     (result @ map (\<lambda>(a, b). mk_process a b) (parsed_values (getline_all newline stream) (a, b)),
      errs @ es) \<and>
     set es = report ` {l \<in> set (getline_all newline stream). reported l}"
proof (induction stream a b result errs rule: ParseLines.induct)
  case (1 stream a b result errs)
  show ?case
  proof (cases "getline CHR 0x0A stream")
    case None
    then have "ParseLines stream a b result errs = (result, errs)"
      by (subst ParseLines.simps) simp
    moreover have "getline_all newline stream = []"
      using None by (subst getline_all.simps) (simp add: newline_def)
    ultimately show ?thesis by simp
  next
    case (Some r)
    obtain line rest where r: "r = (line, rest)" by (cases r)
    obtain n where n: "ParseTokens line (getline_all CHR '' '' line) 0 a b errs =
       (fst (line_values line (a, b)), snd (line_values line (a, b)),
        errs @ replicate n (report line))" and n0: "0 < n \<longleftrightarrow> reported line"
      using ParseTokens_0 [of line a b errs] by blast
    define a' where "a' = fst (line_values line (a, b))"
    define b' where "b' = snd (line_values line (a, b))"
    define errs' where "errs' = errs @ replicate n (report line)"
    have pl: "ParseLine line line 0 a b errs = (a', (b', errs'))"
      using n by (simp add: ParseLine_tokens a'_def b'_def errs'_def)
    have step: "ParseLines stream a b result errs =
       ParseLines rest a' b' (result @ [mk_process a' b']) errs'"
      using Some r pl by (subst ParseLines.simps) simp
    have ga: "getline_all newline stream = line # getline_all newline rest"
      using Some r by (subst getline_all.simps) (simp add: newline_def)
    obtain es where es: "ParseLines rest a' b' (result @ [mk_process a' b']) errs' =
       ((result @ [mk_process a' b']) @
          map (\<lambda>(a, b). mk_process a b) (parsed_values (getline_all newline rest) (a', b')),
        errs' @ es)"
      and ses: "set es = report ` {l \<in> set (getline_all newline rest). reported l}"
      using "1.IH" [OF Some r [symmetric] pl [symmetric] refl refl] by blast
    have lv: "line_values line (a, b) = (a', b')" by (simp add: a'_def b'_def)
    have "ParseLines stream a b result errs =
       (result @ map (\<lambda>(a, b). mk_process a b) (parsed_values (getline_all newline stream) (a, b)),
        errs @ (replicate n (report line) @ es))"
      unfolding step es ga by (simp add: lv errs'_def)
    moreover have "set (replicate n (report line) @ es) =
       report ` {l \<in> set (getline_all newline stream). reported l}"
      unfolding ga using ses n0 by (cases "n = 0") auto
    ultimately show ?thesis by blast
  qed
qed

lemma parsed_values_length: "length (parsed_values lines v) = length lines"
  by (induction lines arbitrary: v) simp_all

lemma parsed_values_nth:
  "i < length lines \<Longrightarrow>
   parsed_values lines v ! i =
     line_values (lines ! i) (if i = 0 then v else parsed_values lines v ! (i - 1))"
proof (induction lines arbitrary: v i)
  case Nil
  then show ?case by simp
next
  case (Cons l ls)
  show ?case
  proof (cases i)
    case 0
    then show ?thesis by simp
  next
    case (Suc j)
    then have j: "j < length ls" using Cons.prems by simp
    show ?thesis
      using Cons.IH [OF j, of "line_values l v"] Suc by (cases j) simp_all
  qed
qed

lemma getline_all_count:
  "length (getline_all d s) = count_list s d + (if s \<noteq> [] \<and> last s \<noteq> d then 1 else 0)"
proof (induction d s rule: getline_all.induct)
  case (1 d s)
  show ?case
  proof (cases "s = []")
    case True
    then show ?thesis by (subst getline_all.simps) (simp add: getline_def)
  next
    case False
    define pre where "pre = takeWhile (\<lambda>c. c \<noteq> d) s"
    define post where "post = dropWhile (\<lambda>c. c \<noteq> d) s"
    have s: "s = pre @ post" by (simp add: pre_def post_def)
    have g: "getline d s = Some (pre, drop 1 post)"
      using False by (simp add: getline_def pre_def post_def)
    have cpre: "count_list pre d = 0"
      using set_takeWhileD [of d "\<lambda>c. c \<noteq> d" s] by (auto simp: pre_def count_list_0_iff)
    have len: "length (getline_all d s) = 1 + length (getline_all d (drop 1 post))"
      using g by (subst getline_all.simps) simp
    have ih: "length (getline_all d (drop 1 post)) =
       count_list (drop 1 post) d +
       (if drop 1 post \<noteq> [] \<and> last (drop 1 post) \<noteq> d then 1 else 0)"
      using "1.IH" [OF g refl] .
    show ?thesis
    proof (cases post)
      case Nil
      then have "s = pre" "pre \<noteq> []" using s False by auto
      moreover have "last pre \<noteq> d"
        using \<open>pre \<noteq> []\<close> set_takeWhileD [of "last pre" "\<lambda>c. c \<noteq> d" s] by (simp add: pre_def)
      ultimately show ?thesis using len ih Nil cpre
        by (subst (asm) getline_all.simps) (simp add: getline_def)
    next
      case (Cons c rest)
      have "c = d" using Cons by (simp add: post_def dropWhile_eq_Cons_conv)
      then have s': "s = pre @ d # rest" using s Cons by simp
      show ?thesis
        using len ih Cons cpre unfolding s' by (simp add: \<open>c = d\<close>)
    qed
  qed
qed

lemma ParseFile_closed:
  assumes "ParseFile (Some content) = (ps, errs)"
  shows "ps = map (\<lambda>(a, b). mk_process a b) (parsed_values (getline_all newline content) (0, 0))"
    and "set errs = report ` {l \<in> set (getline_all newline content). reported l}"
proof -
  obtain es where "ParseLines content 0 0 [] [] =
     ([] @ map (\<lambda>(a, b). mk_process a b) (parsed_values (getline_all newline content) (0, 0)),
      [] @ es)" and "set es = report ` {l \<in> set (getline_all newline content). reported l}"
    using ParseLines_closed [of content 0 0 "[]" "[]"] by blast
  then show "ps = map (\<lambda>(a, b). mk_process a b) (parsed_values (getline_all newline content) (0, 0))"
    and "set errs = report ` {l \<in> set (getline_all newline content). reported l}"
    using assms by (simp_all add: ParseFile_def)
qed

lemma ParseFile_nth:
  assumes "ParseFile (Some content) = (ps, errs)" and "i < length (getline_all newline content)"
  shows "ps ! i = mk_process (at' (ps ! i)) (bt (ps ! i))"
    and "(at' (ps ! i), bt (ps ! i)) =
         line_values (getline_all newline content ! i)
           (if i = 0 then (0, 0) else (at' (ps ! (i - 1)), bt (ps ! (i - 1))))"
proof -
  define lines where "lines = getline_all newline content"
  define vs where "vs = parsed_values lines (0, 0)"
  have ps: "ps = map (\<lambda>(a, b). mk_process a b) vs"
    using ParseFile_closed(1) [OF assms(1)] by (simp add: vs_def lines_def)
  have i: "i < length vs" using assms(2) by (simp add: vs_def lines_def parsed_values_length)
  have fields: "at' (ps ! k) = fst (vs ! k) \<and> bt (ps ! k) = snd (vs ! k)"
    if "k < length vs" for k
    using that by (simp add: ps case_prod_beta mk_process_def)
  have whole: "ps ! k = mk_process (fst (vs ! k)) (snd (vs ! k))" if "k < length vs" for k
    using that by (simp add: ps case_prod_beta)
  show "ps ! i = mk_process (at' (ps ! i)) (bt (ps ! i))"
    using fields [OF i] whole [OF i] by simp
  have "vs ! i = line_values (lines ! i) (if i = 0 then (0, 0) else vs ! (i - 1))"
    unfolding vs_def using assms(2) by (intro parsed_values_nth) (simp add: lines_def)
  moreover have "i \<noteq> 0 \<Longrightarrow> vs ! (i - 1) = (at' (ps ! (i - 1)), bt (ps ! (i - 1)))"
    using fields [of "i - 1"] i by simp
  ultimately show "(at' (ps ! i), bt (ps ! i)) =
         line_values (getline_all newline content ! i)
           (if i = 0 then (0, 0) else (at' (ps ! (i - 1)), bt (ps ! (i - 1))))"
    using fields [OF i] by (simp add: lines_def)
qed

section \<open>Claim C9: which lines are reported, and that none stops the parser\<close>

text \<open>
  On a numeric token the extraction takes the whole token: it delivers the value the
  token denotes, or fails with the nearest bound when that value is outside the range of
  \<^verbatim>\<open>int\<close>.
\<close>

lemma not_space_sign_digit:
  "isspace c \<Longrightarrow> c \<noteq> CHR ''-'' \<and> c \<noteq> CHR ''+'' \<and> \<not> isdigit c"
  by (auto simp: isspace_def isdigit_def)

lemma extract_int_numeric:
  assumes "spec_numeric token"
  shows "extract_int token v =
     (if spec_value token > INT_MAX then (INT_MAX, True)
      else if spec_value token < INT_MIN then (INT_MIN, True)
      else (spec_value token, False))"
proof -
  define ds where "ds = spec_digits token"
  have ds: "ds \<noteq> []" "list_all isdigit ds" using assms by (simp_all add: spec_numeric_def ds_def)
  have tw: "takeWhile isdigit ds = ds" using ds(2) by (simp add: list_all_iff)
  have ne: "token \<noteq> []" using ds(1) by (auto simp: ds_def spec_digits_def split: if_splits)
  then obtain c cs where t: "token = c # cs" by (cases token) auto
  consider (neg) "c = CHR ''-''" | (pos) "c = CHR ''+''" | (dig) "c \<noteq> CHR ''-''" "c \<noteq> CHR ''+''"
    by blast
  then show ?thesis
  proof cases
    case neg
    have d: "ds = cs" by (simp add: ds_def spec_digits_def t neg)
    have cs: "cs \<noteq> []" and tk: "takeWhile isdigit cs = cs" using ds(1) tw by (simp_all add: d)
    show ?thesis
      using cs
      by (simp add: t neg tk extract_int_def spec_value_def spec_digits_def isspace_def Let_def)
  next
    case pos
    have d: "ds = cs" by (simp add: ds_def spec_digits_def t pos)
    have cs: "cs \<noteq> []" and tk: "takeWhile isdigit cs = cs" using ds(1) tw by (simp_all add: d)
    show ?thesis
      using cs
      by (simp add: t pos tk extract_int_def spec_value_def spec_digits_def isspace_def Let_def)
  next
    case dig
    have d: "ds = c # cs" using dig by (simp add: ds_def spec_digits_def t)
    have dc: "isdigit c" and tk: "takeWhile isdigit cs = cs"
      using ds(2) tw by (simp_all add: d split: if_splits)
    have "\<not> isspace c" using not_space_sign_digit [of c] dc by blast
    then show ?thesis
      using dig dc
      by (simp add: t tk extract_int_def spec_value_def spec_digits_def Let_def)
  qed
qed

lemma report_inj: "report l = report l' \<longleftrightarrow> l = l'"
  by (simp add: report_def)

lemma getline_all_empty: "getline_all delim stream = [] \<longleftrightarrow> stream = []"
  by (subst getline_all.simps) (simp add: getline_def)

lemma token_fails_numeric:
  "spec_numeric token \<Longrightarrow>
   token_fails token \<longleftrightarrow> spec_value token < INT_MIN \<or> INT_MAX < spec_value token"
  unfolding token_fails_def by (subst extract_int_numeric) auto

text \<open>
  C9 (as stated): a file with a malformed line (more than two tokens, or a non-numeric
  token) gets an error reported for that line.  This is false for a non-numeric token
  that starts with digits: the extraction stops at the first character that is no digit
  and does not fail.  The line \<open>12abc 4x\<close> is malformed, nothing is written to the error
  stream, and the record (12, 4) is appended.
\<close>

theorem C9_counterexample:
  "getline_all newline prefix_file = [''12abc 4x''] \<and> spec_malformed ''12abc 4x'' \<and>
   ParseFile (Some prefix_file) = ([mk_process 12 4], [])"
  by code_simp

text \<open>
  C9 (amended): a line is reported exactly when it has more than two tokens or the
  extraction from its first or second token fails; an extraction fails exactly when,
  after leading white space and one optional sign, the token does not go on with a
  digit (as \<open>abc\<close> in \<open>0 abc\<close>, or an empty token), or its digits denote a value outside
  the range of \<^verbatim>\<open>int\<close>.  So every line with more than two tokens is reported, every
  reported line is malformed or holds a number out of range, and a malformed line of at
  most two tokens whose tokens start with a number in range is not reported.  No line
  stops the parse: the vector has one record per line of the file, so it is not empty
  when the file is not, and every well-formed line, wherever it stands, is not reported
  and gives the record at its own position with the two values of its tokens.
\<close>

theorem C9_reports_and_ingestion:
  assumes "ParseFile (Some content) = (ps, errs)"
    and "lines = getline_all newline content"
  shows "length ps = length lines \<and> (content \<noteq> [] \<longrightarrow> ps \<noteq> []) \<and>
     (\<forall>i < length lines.
        (report (lines ! i) \<in> set errs \<longleftrightarrow> reported (lines ! i)) \<and>
        (length (getline_all CHR '' '' (lines ! i)) > 2 \<longrightarrow> report (lines ! i) \<in> set errs) \<and>
        (report (lines ! i) \<in> set errs \<longrightarrow>
           spec_malformed (lines ! i) \<or>
           list_ex (\<lambda>token. spec_value token < INT_MIN \<or> INT_MAX < spec_value token)
             (getline_all CHR '' '' (lines ! i))) \<and>
        (spec_well_formed (lines ! i) \<longrightarrow>
           report (lines ! i) \<notin> set errs \<and>
           at' (ps ! i) = spec_value (getline_all CHR '' '' (lines ! i) ! 0) \<and>
           bt (ps ! i) = spec_value (getline_all CHR '' '' (lines ! i) ! 1) \<and>
           rbt (ps ! i) = bt (ps ! i))) \<and>
     (\<forall>token. token_fails token \<longleftrightarrow>
        (let s = dropWhile isspace token;
             ds = takeWhile isdigit (spec_digits s);
             n = foldl (\<lambda>a c. 10 * a + digit_val c) 0 ds;
             n = (if s \<noteq> [] \<and> hd s = CHR ''-'' then - n else n)
         in ds = [] \<or> n > INT_MAX \<or> n < INT_MIN))"
proof (intro conjI allI impI)
  show len: "length ps = length lines"
    using ParseFile_closed(1) [OF assms(1)] by (simp add: assms(2) parsed_values_length)
  show "ps \<noteq> []" if "content \<noteq> []"
    using that len getline_all_empty [of newline content] by (auto simp: assms(2))
next
  fix token
  show "token_fails token \<longleftrightarrow>
        (let s = dropWhile isspace token;
             ds = takeWhile isdigit (spec_digits s);
             n = foldl (\<lambda>a c. 10 * a + digit_val c) 0 ds;
             n = (if s \<noteq> [] \<and> hd s = CHR ''-'' then - n else n)
         in ds = [] \<or> n > INT_MAX \<or> n < INT_MIN)"
  proof -
    define s where "s = dropWhile isspace token"
    show ?thesis
      unfolding token_fails_def extract_int_def Let_def s_def [symmetric]
      by (cases "s = []") (simp_all add: spec_digits_def)
  qed
next
  fix i assume i: "i < length lines"
  define line where "line = lines ! i"
  define tokens where "tokens = getline_all CHR '' '' line"
  have mem: "line \<in> set lines" using i by (simp add: line_def)
  have errs: "set errs = report ` {l \<in> set lines. reported l}"
    using ParseFile_closed(2) [OF assms(1)] by (simp add: assms(2))
  show rep: "report (lines ! i) \<in> set errs \<longleftrightarrow> reported (lines ! i)"
    unfolding errs line_def [symmetric] using mem by (auto simp: report_inj)
  have r: "reported line \<longleftrightarrow> length tokens > 2 \<or> (tokens \<noteq> [] \<and> token_fails (tokens ! 0)) \<or>
         (length tokens \<ge> 2 \<and> token_fails (tokens ! 1))"
    by (simp add: reported_def tokens_def Let_def)
  show "report (lines ! i) \<in> set errs" if "length (getline_all CHR '' '' (lines ! i)) > 2"
    using that rep r by (simp add: line_def tokens_def)
  show "spec_malformed (lines ! i) \<or>
           list_ex (\<lambda>token. spec_value token < INT_MIN \<or> INT_MAX < spec_value token)
             (getline_all CHR '' '' (lines ! i))" if "report (lines ! i) \<in> set errs"
  proof (cases "spec_malformed line")
    case True
    then show ?thesis by (simp add: line_def)
  next
    case False
    then have l2: "\<not> length tokens > 2" and nm: "\<forall>t \<in> set tokens. spec_numeric t"
      by (simp_all add: spec_malformed_def tokens_def [symmetric] Let_def list_ex_iff)
    have "reported line" using that rep by (simp add: line_def)
    then consider "tokens \<noteq> []" "token_fails (tokens ! 0)"
      | "length tokens \<ge> 2" "token_fails (tokens ! 1)"
      using r l2 by blast
    then have "\<exists>t \<in> set tokens. token_fails t"
    proof cases
      case 1
      then have "tokens ! 0 \<in> set tokens" by simp
      then show ?thesis using 1(2) by blast
    next
      case 2
      then have "tokens ! 1 \<in> set tokens" by simp
      then show ?thesis using 2(2) by blast
    qed
    then obtain t where t: "t \<in> set tokens" "token_fails t" by blast
    then have "spec_value t < INT_MIN \<or> INT_MAX < spec_value t"
      using nm token_fails_numeric [of t] by blast
    then have "list_ex (\<lambda>token. spec_value token < INT_MIN \<or> INT_MAX < spec_value token) tokens"
      using t(1) unfolding list_ex_iff by blast
    then show ?thesis by (simp add: tokens_def line_def)
  qed
  assume "spec_well_formed (lines ! i)"
  then have wf: "length tokens = 2"
    and all: "\<forall>t \<in> set tokens. spec_numeric t \<and> INT_MIN \<le> spec_value t \<and> spec_value t \<le> INT_MAX"
    by (simp_all add: spec_well_formed_def tokens_def line_def Let_def list_all_iff)
  have t0: "tokens ! 0 \<in> set tokens" and t1: "tokens ! 1 \<in> set tokens" using wf by simp_all
  have e0: "extract_int (tokens ! 0) v = (spec_value (tokens ! 0), False)" for v
    using all t0 by (subst extract_int_numeric) auto
  have e1: "extract_int (tokens ! 1) v = (spec_value (tokens ! 1), False)" for v
    using all t1 by (subst extract_int_numeric) auto
  have nf: "\<not> token_fails (tokens ! 0)" "\<not> token_fails (tokens ! 1)"
    using e0 [of 0] e1 [of 0] by (simp_all add: token_fails_def)
  have "\<not> reported line" using r wf nf by simp
  then show "report (lines ! i) \<notin> set errs" using rep by (simp add: line_def)
  have i': "i < length (getline_all newline content)" using i by (simp add: assms(2))
  have lv: "(at' (ps ! i), bt (ps ! i)) =
         line_values line
           (if i = 0 then (0, 0) else (at' (ps ! (i - 1)), bt (ps ! (i - 1))))"
    using ParseFile_nth(2) [OF assms(1) i'] by (simp add: assms(2) line_def)
  have ne: "tokens \<noteq> []" "\<not> length tokens < 2" using wf by auto
  have vals: "at' (ps ! i) = spec_value (tokens ! 0) \<and> bt (ps ! i) = spec_value (tokens ! 1)"
    using lv ne e0 e1 by (simp add: line_values_def tokens_def [symmetric] Let_def)
  then show "at' (ps ! i) = spec_value (getline_all CHR '' '' (lines ! i) ! 0)"
    and "bt (ps ! i) = spec_value (getline_all CHR '' '' (lines ! i) ! 1)"
    by (simp_all add: tokens_def line_def)
  have "ps ! i = mk_process (at' (ps ! i)) (bt (ps ! i))"
    by (rule ParseFile_nth(1) [OF assms(1) i'])
  then show "rbt (ps ! i) = bt (ps ! i)"
    by (simp add: mk_process_def) (metis Process.select_convs(2,8))
qed

theorem C9_reports_and_ingestion_witness:
  "getline_all newline malformed_file = [''0 abc'', ''4 6''] \<and>
   spec_malformed ''0 abc'' \<and> token_fails ''abc'' \<and> spec_well_formed ''4 6'' \<and>
   report ''0 abc'' \<in> set (snd (ParseFile (Some malformed_file))) \<and>
   report ''4 6'' \<notin> set (snd (ParseFile (Some malformed_file))) \<and>
   length (fst (ParseFile (Some malformed_file))) = 2 \<and>
   at' (fst (ParseFile (Some malformed_file)) ! 1) = 4 \<and>
   bt (fst (ParseFile (Some malformed_file)) ! 1) = 6 \<and>
   rbt (fst (ParseFile (Some malformed_file)) ! 1) = 6"
proof -
  have l: "getline_all newline malformed_file = [''0 abc'', ''4 6'']" by code_simp
  have m: "spec_malformed ''0 abc''" by code_simp
  have f: "token_fails ''abc''" by code_simp
  have r: "reported ''0 abc''" by code_simp
  have w: "spec_well_formed ''4 6''" by code_simp
  have t: "getline_all CHR '' '' ''4 6'' = [''4'', ''6'']" by code_simp
  have v: "spec_value ''4'' = 4" "spec_value ''6'' = 6" by code_simp+
  have p: "ParseFile (Some malformed_file) =
     (fst (ParseFile (Some malformed_file)), snd (ParseFile (Some malformed_file)))" by simp
  note th = C9_reports_and_ingestion [OF p l [symmetric]]
  note len = th [THEN conjunct1]
  note line = th [THEN conjunct2, THEN conjunct2, THEN conjunct1, THEN spec, THEN mp]
  have a: "length (fst (ParseFile (Some malformed_file))) = 2" using len by simp
  have "(0::nat) < length [''0 abc'', ''4 6'']" by simp
  from line [OF this] have b: "report ''0 abc'' \<in> set (snd (ParseFile (Some malformed_file)))"
    using r by simp
  have "(1::nat) < length [''0 abc'', ''4 6'']" by simp
  from line [OF this] have c: "report ''4 6'' \<notin> set (snd (ParseFile (Some malformed_file))) \<and>
     at' (fst (ParseFile (Some malformed_file)) ! 1) = 4 \<and>
     bt (fst (ParseFile (Some malformed_file)) ! 1) = 6 \<and>
     rbt (fst (ParseFile (Some malformed_file)) ! 1) = 6"
    using w t v by auto
  show ?thesis using l m f w a b c by (intro conjI) simp_all
qed

section \<open>Claim C10: one record per line, and what a missing or failed token leaves\<close>

text \<open>
  C10 (as stated): a field whose token is missing or fails to parse keeps the value
  carried over from the most recent successfully parsed line.  For a token that is
  present and fails to convert this is false: on the file with the lines \<open>3 7\<close>,
  \<open>0 abc\<close>, \<open>5\<close> the extraction from \<open>abc\<close> stores 0 in \<^verbatim>\<open>bt\<close>, so the
  second record has burst time 0, not 7, and the third inherits that 0.
\<close>

theorem C10_counterexample:
  "map (\<lambda>p. (at' p, bt p)) (fst (ParseFile (Some carry_file))) = [(3, 7), (0, 0), (5, 0)]"
  by code_simp

text \<open>
  C10 (amended): \<^verbatim>\<open>ParseFile\<close> appends exactly one record per line of the file
  (one more than the number of newline characters when the file does not end in one),
  none skipped; every record has only \<^verbatim>\<open>at\<close>, \<^verbatim>\<open>bt\<close> and \<^verbatim>\<open>rbt = bt\<close>
  set.  A field whose token is missing keeps the value of the previous record (0 on the
  first line); a field whose token is present gets what the extraction leaves: the old
  value for an empty or blank token, 0 for a token that starts with a character that is
  no digit, sign or space.
\<close>

theorem C10_one_record_per_line:
  assumes "ParseFile (Some content) = (ps, errs)"
    and "lines = getline_all newline content"
  shows "length ps = length lines \<and>
         length lines =
           count_list content newline + (if content \<noteq> [] \<and> last content \<noteq> newline then 1 else 0) \<and>
         (\<forall>i < length lines.
            ps ! i = mk_process (at' (ps ! i)) (bt (ps ! i)) \<and>
            at' (ps ! i) =
              (if getline_all CHR '' '' (lines ! i) = []
               then (if i = 0 then 0 else at' (ps ! (i - 1)))
               else fst (extract_int (getline_all CHR '' '' (lines ! i) ! 0)
                          (if i = 0 then 0 else at' (ps ! (i - 1))))) \<and>
            bt (ps ! i) =
              (if length (getline_all CHR '' '' (lines ! i)) < 2
               then (if i = 0 then 0 else bt (ps ! (i - 1)))
               else fst (extract_int (getline_all CHR '' '' (lines ! i) ! 1)
                          (if i = 0 then 0 else bt (ps ! (i - 1)))))) \<and>
         (\<forall>token v. dropWhile isspace token = [] \<longrightarrow> extract_int token v = (v, True)) \<and>
         (\<forall>c cs v. \<not> isspace c \<and> \<not> isdigit c \<and> c \<noteq> CHR ''-'' \<and> c \<noteq> CHR ''+'' \<longrightarrow>
            extract_int (c # cs) v = (0, True))"
proof (intro conjI allI impI)
  show "length ps = length lines"
    using ParseFile_closed(1) [OF assms(1)] by (simp add: assms(2) parsed_values_length)
  show "length lines =
           count_list content newline + (if content \<noteq> [] \<and> last content \<noteq> newline then 1 else 0)"
    unfolding assms(2) by (rule getline_all_count)
next
  fix i assume i: "i < length lines"
  then have i': "i < length (getline_all newline content)" by (simp add: assms(2))
  show "ps ! i = mk_process (at' (ps ! i)) (bt (ps ! i))"
    by (rule ParseFile_nth(1) [OF assms(1) i'])
  have lv: "(at' (ps ! i), bt (ps ! i)) =
         line_values (lines ! i)
           (if i = 0 then (0, 0) else (at' (ps ! (i - 1)), bt (ps ! (i - 1))))"
    using ParseFile_nth(2) [OF assms(1) i'] by (simp add: assms(2))
  show "at' (ps ! i) =
              (if getline_all CHR '' '' (lines ! i) = []
               then (if i = 0 then 0 else at' (ps ! (i - 1)))
               else fst (extract_int (getline_all CHR '' '' (lines ! i) ! 0)
                          (if i = 0 then 0 else at' (ps ! (i - 1)))))"
    using lv by (cases "i = 0") (simp_all add: line_values_def Let_def)
  show "bt (ps ! i) =
              (if length (getline_all CHR '' '' (lines ! i)) < 2
               then (if i = 0 then 0 else bt (ps ! (i - 1)))
               else fst (extract_int (getline_all CHR '' '' (lines ! i) ! 1)
                          (if i = 0 then 0 else bt (ps ! (i - 1)))))"
    using lv by (cases "i = 0") (simp_all add: line_values_def Let_def)
next
  fix token v assume "dropWhile isspace token = []"
  then show "extract_int token v = (v, True)" by (simp add: extract_int_def)
next
  fix c cs v
  assume "\<not> isspace c \<and> \<not> isdigit c \<and> c \<noteq> CHR ''-'' \<and> c \<noteq> CHR ''+''"
  then show "extract_int (c # cs) v = (0, True)" by (simp add: extract_int_def)
qed

theorem C10_one_record_per_line_witness:
  "getline_all newline carry_file = [''3 7'', ''0 abc'', ''5''] \<and>
   length (fst (ParseFile (Some carry_file))) = 3 \<and>
   getline_all CHR '' '' ''5'' = [''5''] \<and>
   bt (fst (ParseFile (Some carry_file)) ! 2) = bt (fst (ParseFile (Some carry_file)) ! 1) \<and>
   extract_int '''' 7 = (7, True) \<and> extract_int ''abc'' 7 = (0, True)"
proof -
  have l: "getline_all newline carry_file = [''3 7'', ''0 abc'', ''5'']" by code_simp
  have t: "getline_all CHR '' '' ''5'' = [''5'']" by code_simp
  have p: "ParseFile (Some carry_file) =
     (fst (ParseFile (Some carry_file)), snd (ParseFile (Some carry_file)))" by simp
  note th = C10_one_record_per_line [OF p l [symmetric]]
  have a: "length (fst (ParseFile (Some carry_file))) = 3" using th by simp
  have "(2::nat) < length [''3 7'', ''0 abc'', ''5'']" by simp
  with th have "bt (fst (ParseFile (Some carry_file)) ! 2) =
              (if length (getline_all CHR '' '' ([''3 7'', ''0 abc'', ''5''] ! 2)) < 2
               then (if (2::nat) = 0 then 0 else bt (fst (ParseFile (Some carry_file)) ! (2 - 1)))
               else fst (extract_int (getline_all CHR '' '' ([''3 7'', ''0 abc'', ''5''] ! 2) ! 1)
                          (if (2::nat) = 0 then 0 else bt (fst (ParseFile (Some carry_file)) ! (2 - 1)))))"
    by blast
  then have b: "bt (fst (ParseFile (Some carry_file)) ! 2) = bt (fst (ParseFile (Some carry_file)) ! 1)"
    using t by simp
  have c: "dropWhile isspace '''' = []" by simp
  have d: "\<not> isspace CHR ''a'' \<and> \<not> isdigit CHR ''a'' \<and> CHR ''a'' \<noteq> CHR ''-'' \<and> CHR ''a'' \<noteq> CHR ''+''"
    by (simp add: isspace_def isdigit_def)
  have e: "extract_int '''' 7 = (7, True)" using th c by blast
  have f: "extract_int ''abc'' 7 = (0, True)" using th d by blast
  show ?thesis using l a t b e f by simp
qed

section \<open>The phases of a round-robin step\<close>

lemma RR_sweep_from_closed:
  "RR_sweep_from t i ps qu =
     (map (mark t) ps, qu @ [k \<leftarrow> [i ..< i + length ps]. arrives t (ps ! (k - i))])"
proof (induction ps arbitrary: i qu)
  case Nil
  then show ?case by simp
next
  case (Cons p rest)
  have upt: "[i ..< i + length (p # rest)] = i # [Suc i ..< Suc (i + length rest)]"
    using upt_conv_Cons [of i "i + length (p # rest)"] by simp
  have tl: "[k \<leftarrow> [Suc i ..< Suc (i + length rest)]. arrives t ((p # rest) ! (k - i))] =
            [k \<leftarrow> [Suc i ..< Suc (i + length rest)]. arrives t (rest ! (k - Suc i))]"
  proof (rule filter_cong [OF refl])
    fix k assume "k \<in> set [Suc i ..< Suc (i + length rest)]"
    then have "Suc i \<le> k" by (simp only: set_upt atLeastLessThan_iff)
    then have "k - i = Suc (k - Suc i)" by arith
    then show "arrives t ((p # rest) ! (k - i)) = arrives t (rest ! (k - Suc i))" by simp
  qed
  have ih: "RR_sweep_from t (Suc i) rest qu' =
     (map (mark t) rest, qu' @ [k \<leftarrow> [Suc i ..< Suc (i + length rest)]. arrives t (rest ! (k - Suc i))])"
    for qu' using Cons.IH [of "Suc i" qu'] by simp
  show ?case
  proof (cases "arrives t p")
    case True
    then have "RR_sweep_from t i (p # rest) qu =
       (p\<lparr>queued := True\<rparr> # map (mark t) rest,
        (qu @ [i]) @ [k \<leftarrow> [Suc i ..< Suc (i + length rest)]. arrives t (rest ! (k - Suc i))])"
      by (simp add: arrives_def ih)
    then show ?thesis unfolding upt using True by (simp add: tl mark_def del: upt_Suc)
  next
    case False
    then have "RR_sweep_from t i (p # rest) qu =
       (p # map (mark t) rest,
        qu @ [k \<leftarrow> [Suc i ..< Suc (i + length rest)]. arrives t (rest ! (k - Suc i))])"
      by (auto simp: arrives_def ih)
    then show ?thesis unfolding upt using False by (simp add: tl mark_def del: upt_Suc)
  qed
qed

lemma RR_sweep_closed:
  assumes "processes s = p0 # rest"
  shows "RR_sweep s =
     s\<lparr>processes := p0 # map (mark (time_passed s)) rest,
       ready_indexes_queue := ready_indexes_queue s @
         [k \<leftarrow> [1 ..< length (processes s)]. arrives (time_passed s) (processes s ! k)]\<rparr>"
proof -
  have "[k \<leftarrow> [1 ..< 1 + length rest]. arrives (time_passed s) (rest ! (k - 1))] =
        [k \<leftarrow> [1 ..< 1 + length rest]. arrives (time_passed s) ((p0 # rest) ! k)]"
  proof (rule filter_cong [OF refl])
    fix k assume "k \<in> set [1 ..< 1 + length rest]"
    then have "1 \<le> k" by (simp only: set_upt atLeastLessThan_iff)
    then have "0 < k" by simp
    then show "arrives (time_passed s) (rest ! (k - 1)) = arrives (time_passed s) ((p0 # rest) ! k)"
      by (simp add: nth_Cons')
  qed
  then show ?thesis
    using assms by (simp add: RR_sweep_def RR_sweep_from_closed)
qed

lemma RR_recover_from_none:
  "\<forall>p \<in> set ps. finished p \<Longrightarrow> RR_recover_from i ps qu = (ps, qu)"
  by (induction ps arbitrary: i) simp_all

lemma RR_recover_from_first:
  "k < length ps \<Longrightarrow> \<not> finished (ps ! k) \<Longrightarrow> \<forall>j < k. finished (ps ! j) \<Longrightarrow>
   RR_recover_from i ps qu = (ps[k := (ps ! k)\<lparr>queued := True\<rparr>], qu @ [i + k])"
proof (induction ps arbitrary: i k)
  case Nil
  then show ?case by simp
next
  case (Cons p rest)
  show ?case
  proof (cases k)
    case 0
    then show ?thesis using Cons.prems by simp
  next
    case (Suc k')
    have fp: "finished p" using Cons.prems(3) Suc by auto
    have "RR_recover_from (Suc i) rest qu =
          (rest[k' := (rest ! k')\<lparr>queued := True\<rparr>], qu @ [Suc i + k'])"
      using Cons.prems Suc by (intro Cons.IH) auto
    then show ?thesis using fp Suc by simp
  qed
qed

lemma arrives_cong:
  "queued p' = queued p \<Longrightarrow> finished p' = finished p \<Longrightarrow> at' p' = at' p \<Longrightarrow>
   arrives t p' = arrives t p"
  by (simp add: arrives_def)

lemma RR_dispatch_continue:
  assumes "rbt (processes s ! c) - q > 0"
  shows "\<exists>curr'. RR_dispatch q c s =
     s\<lparr>processes := (processes s)[c := curr'],
       time_passed := (if rbt (processes s ! c) = bt (processes s ! c)
                       then max (time_passed s) (at' (processes s ! c)) else time_passed s) + q\<rparr> \<and>
     queued curr' = queued (processes s ! c) \<and> finished curr' = finished (processes s ! c) \<and>
     at' curr' = at' (processes s ! c) \<and> bt curr' = bt (processes s ! c) \<and>
     rbt curr' = rbt (processes s ! c) - q \<and>
     tt curr' = tt (processes s ! c) \<and> rt curr' = rt (processes s ! c) \<and>
     wt curr' = wt (processes s ! c) \<and>
     st curr' = (if rbt (processes s ! c) = bt (processes s ! c)
                 then max (time_passed s) (at' (processes s ! c)) else st (processes s ! c))"
proof (cases "rbt (processes s ! c) = bt (processes s ! c)")
  case True
  show ?thesis
    by (rule exI [of _ "(processes s ! c)\<lparr>st := max (time_passed s) (at' (processes s ! c)),
            rbt := rbt (processes s ! c) - q\<rparr>"])
       (use assms True in \<open>simp add: RR_dispatch_def Let_def\<close>)
next
  case False
  show ?thesis
    by (rule exI [of _ "(processes s ! c)\<lparr>rbt := rbt (processes s ! c) - q\<rparr>"])
       (use assms False in \<open>simp add: RR_dispatch_def Let_def\<close>)
qed

lemma RR_dispatch_finish:
  assumes "\<not> rbt (processes s ! c) - q > 0"
  shows "\<exists>curr'. RR_dispatch q c s =
     s\<lparr>processes := (processes s)[c := curr'],
       time_passed := (if rbt (processes s ! c) = bt (processes s ! c)
                       then max (time_passed s) (at' (processes s ! c)) else time_passed s)
                      + rbt (processes s ! c),
       finished_count := finished_count s + 1,
       metrics := accumulate (metrics s) curr'\<rparr> \<and>
     queued curr' = queued (processes s ! c) \<and> finished curr' \<and>
     at' curr' = at' (processes s ! c) \<and> bt curr' = bt (processes s ! c) \<and>
     rbt curr' = 0 \<and>
     ct curr' = (if rbt (processes s ! c) = bt (processes s ! c)
                       then max (time_passed s) (at' (processes s ! c)) else time_passed s)
                      + rbt (processes s ! c) \<and>
     st curr' = (if rbt (processes s ! c) = bt (processes s ! c)
                 then max (time_passed s) (at' (processes s ! c)) else st (processes s ! c)) \<and>
     tt curr' = ct curr' - at' curr' \<and> rt curr' = st curr' - at' curr' \<and>
     wt curr' = tt curr' - bt curr'"
proof (cases "rbt (processes s ! c) = bt (processes s ! c)")
  case True
  define t where "t = max (time_passed s) (at' (processes s ! c))"
  define p where "p = processes s ! c"
  show ?thesis
    by (rule exI [of _ "p\<lparr>st := t, ct := t + rbt p, tt := t + rbt p - at' p,
           rt := t - at' p, wt := t + rbt p - at' p - bt p, rbt := 0, finished := True\<rparr>"])
       (use assms True in \<open>simp add: RR_dispatch_def Let_def t_def p_def accumulate_def\<close>)
next
  case False
  define t where "t = time_passed s"
  define p where "p = processes s ! c"
  show ?thesis
    by (rule exI [of _ "p\<lparr>ct := t + rbt p, tt := t + rbt p - at' p,
           rt := st p - at' p, wt := t + rbt p - at' p - bt p, rbt := 0, finished := True\<rparr>"])
       (use assms False in \<open>simp add: RR_dispatch_def Let_def t_def p_def accumulate_def\<close>)
qed

lemma length_sweep_marks [simp]: "length (sweep_marks t ps) = length ps"
  by (simp add: sweep_marks_def split: list.splits)

lemma nth_sweep_marks:
  "k < length ps \<Longrightarrow> sweep_marks t ps ! k = (if k = 0 then ps ! 0 else mark t (ps ! k))"
  by (cases ps) (auto simp: sweep_marks_def nth_Cons')

lemma mark_fields [simp]:
  "finished (mark t p) = finished p" "at' (mark t p) = at' p" "bt (mark t p) = bt p"
  "rbt (mark t p) = rbt p" "st (mark t p) = st p" "ct (mark t p) = ct p"
  "tt (mark t p) = tt p" "rt (mark t p) = rt p" "wt (mark t p) = wt p"
  "queued (mark t p) \<longleftrightarrow> queued p \<or> arrives t p"
  by (simp_all add: mark_def)

lemma RR_sweep_eq:
  "RR_sweep s =
     s\<lparr>processes := sweep_marks (time_passed s) (processes s),
       ready_indexes_queue := ready_indexes_queue s @
         [k \<leftarrow> [1 ..< length (processes s)]. arrives (time_passed s) (processes s ! k)]\<rparr>"
proof (cases "processes s")
  case Nil
  then show ?thesis by (simp add: RR_sweep_def sweep_marks_def)
next
  case (Cons p0 rest)
  show ?thesis
    unfolding RR_sweep_closed [OF Cons] by (simp add: Cons sweep_marks_def)
qed



section \<open>Claim C6: the arrival sweep comes after the time advance and before the re-enqueue\<close>



section \<open>Claim C3: the scan that refills an empty queue\<close>

text \<open>
  C3: when the queue is empty after the sweep and the re-enqueue of a step (state
  \<open>s3\<close>) and some process at an index from 1 on is not finished, the step ends by
  enqueuing exactly the first such process \<open>k\<close> in list order (index 0 is never
  looked at) and marking it queued; nothing else changes, in particular not the clock.
\<close>

theorem C3_empty_queue_recovery:
  assumes "ready_indexes_queue s = c # rest" and "c < length (processes s)"
    and "s3 = RR_requeue c (RR_sweep (RR_dispatch q c (s\<lparr>ready_indexes_queue := rest\<rparr>)))"
    and "ready_indexes_queue s3 = []"
    and "1 \<le> k" and "k < length (processes s3)" and "\<not> finished (processes s3 ! k)"
    and "\<forall>j. 1 \<le> j \<and> j < k \<longrightarrow> finished (processes s3 ! j)"
  shows "RR_step q s =
     Inr (s3\<lparr>processes := (processes s3)[k := (processes s3 ! k)\<lparr>queued := True\<rparr>],
             ready_indexes_queue := [k]\<rparr>)"
proof -
  have step: "RR_step q s = Inr (RR_recover s3)"
    using assms(1,2,3) by (simp add: RR_step_def)
  obtain p0 tl3 where ps3: "processes s3 = p0 # tl3"
    using assms(6) by (cases "processes s3") auto
  obtain k' where k': "k = Suc k'" using assms(5) by (cases k) auto
  have "k' < length tl3" using assms(6) ps3 k' by simp
  moreover have "\<not> finished (tl3 ! k')" using assms(7) ps3 k' by simp
  moreover have "\<forall>j < k'. finished (tl3 ! j)"
  proof (intro allI impI)
    fix j assume "j < k'"
    then have "1 \<le> Suc j \<and> Suc j < k" using k' by simp
    then have "finished (processes s3 ! Suc j)" using assms(8) by blast
    then show "finished (tl3 ! j)" using ps3 by simp
  qed
  ultimately have "RR_recover_from 1 tl3 [] = (tl3[k' := (tl3 ! k')\<lparr>queued := True\<rparr>], [] @ [1 + k'])"
    by (rule RR_recover_from_first)
  then have "RR_recover s3 =
     s3\<lparr>processes := p0 # tl3[k' := (tl3 ! k')\<lparr>queued := True\<rparr>], ready_indexes_queue := [k]\<rparr>"
    using assms(4) ps3 k' by (simp add: RR_recover_def)
  moreover have "(processes s3)[k := (processes s3 ! k)\<lparr>queued := True\<rparr>] =
     p0 # tl3[k' := (tl3 ! k')\<lparr>queued := True\<rparr>]"
    using ps3 k' by simp
  ultimately show ?thesis using step by simp
qed

theorem C3_empty_queue_recovery_witness:
  "ready_indexes_queue (RR_init gap_input) = 0 # [] \<and>
   0 < length (processes (RR_init gap_input)) \<and>
   ready_indexes_queue (RR_requeue 0 (RR_sweep (RR_dispatch 2 0
      (RR_init gap_input\<lparr>ready_indexes_queue := []\<rparr>)))) = [] \<and>
   time_passed (RR_requeue 0 (RR_sweep (RR_dispatch 2 0
      (RR_init gap_input\<lparr>ready_indexes_queue := []\<rparr>)))) = 2 \<and>
   (\<exists>s'. RR_step 2 (RR_init gap_input) = Inr s' \<and> ready_indexes_queue s' = [1] \<and>
      time_passed s' = 2 \<and> queued (processes s' ! 1) \<and> at' (processes s' ! 1) = 10)"
proof -
  define s3 where "s3 = RR_requeue 0 (RR_sweep (RR_dispatch 2 0
      (RR_init gap_input\<lparr>ready_indexes_queue := []\<rparr>)))"
  have a: "ready_indexes_queue (RR_init gap_input) = 0 # []"
    by (simp add: RR_init_def)
  have b: "0 < length (processes (RR_init gap_input))"
    by (simp add: RR_init_def gap_input_def)
  have s3_ps: "processes s3 =
       [\<lparr>at' = 0, bt = 2, st = 0, ct = 2, tt = 2, rt = 0, wt = 0, rbt = 0,
          queued = False, finished = True\<rparr>, mk_process 10 4, mk_process 11 1]"
    by (simp add: s3_def RR_init_def gap_input_def RR_dispatch_def RR_sweep_def RR_requeue_def
        mk_process_def Let_def)
  have c: "ready_indexes_queue s3 = []"
    by (simp add: s3_def RR_init_def gap_input_def RR_dispatch_def RR_sweep_def RR_requeue_def
        mk_process_def Let_def)
  have t: "time_passed s3 = 2"
    by (simp add: s3_def RR_init_def gap_input_def RR_dispatch_def RR_sweep_def RR_requeue_def
        mk_process_def Let_def)
  have d: "(1::nat) \<le> 1" by simp
  have e: "1 < length (processes s3)" by (simp add: s3_ps)
  have f: "\<not> finished (processes s3 ! 1)" by (simp add: s3_ps mk_process_def)
  have g: "\<forall>j. 1 \<le> j \<and> j < (1::nat) \<longrightarrow> finished (processes s3 ! j)" by simp
  note th = C3_empty_queue_recovery [OF a b s3_def c d e f g]
  have "at' (processes s3 ! 1) = 10" by (simp add: s3_ps mk_process_def)
  then have "\<exists>s'. RR_step 2 (RR_init gap_input) = Inr s' \<and> ready_indexes_queue s' = [1] \<and>
      time_passed s' = 2 \<and> queued (processes s' ! 1) \<and> at' (processes s' ! 1) = 10"
    unfolding th using t e by simp
  then show ?thesis using a b c t unfolding s3_def by simp
qed

section \<open>The SJF selection scan\<close>

lemma SJF_scan_inv:
  "scan_inv t all i thr sel \<Longrightarrow> i + length rest = length all \<Longrightarrow> rest = drop i all \<Longrightarrow>
   \<exists>thr'. scan_inv t all (length all) thr' (SJF_scan t all i rest thr sel)"
proof (induction rest arbitrary: i thr sel)
  case Nil
  then show ?case by auto
next
  case (Cons p rest)
  have i: "i < length all" using Cons.prems(2) by simp
  have p: "all ! i = p" using Cons.prems(3) i by (metis nth_via_drop)
  have rest: "rest = drop (Suc i) all"
    using Cons.prems(3) by (metis drop_Suc tl_drop list.sel(3))
  have len: "Suc i + length rest = length all" using Cons.prems(2) by simp
  have less_Suc: "k < Suc i \<longleftrightarrow> k < i \<or> k = i" for k by auto
  show ?case
  proof (cases "eligible t p")
    case False
    then have "scan_inv t all (Suc i) thr sel"
      using Cons.prems(1) p by (auto simp: scan_inv_def less_Suc split: option.splits)
    moreover have "SJF_scan t all i (p # rest) thr sel = SJF_scan t all (Suc i) rest thr sel"
      using False by (auto simp: eligible_def)
    ultimately show ?thesis using Cons.IH [OF _ len rest] by simp
  next
    case True
    then have ne: "\<not> (finished p \<or> at' p > t)" by (auto simp: eligible_def)
    show ?thesis
    proof (cases sel)
      case None
      then have thr: "thr = INT_MAX"
        and old: "\<forall>k < i. eligible t (all ! k) \<longrightarrow> INT_MAX \<le> bt (all ! k)"
        using Cons.prems(1) by (simp_all add: scan_inv_def)
      show ?thesis
      proof (cases "bt p < INT_MAX")
        case found: True
        have "scan_inv t all (Suc i) (bt p) (Some i)"
          using old p True found by (auto simp: scan_inv_def less_Suc no_worse_def)
        moreover have "SJF_scan t all i (p # rest) thr sel =
                       SJF_scan t all (Suc i) rest (bt p) (Some i)"
          using ne None thr found by (simp add: Let_def)
        ultimately show ?thesis using Cons.IH [OF _ len rest] by simp
      next
        case notfound: False
        have "scan_inv t all (Suc i) thr sel"
          using old p None thr notfound by (auto simp: scan_inv_def less_Suc)
        moreover have "SJF_scan t all i (p # rest) thr sel =
                       SJF_scan t all (Suc i) rest thr sel"
          using ne None thr notfound by (simp add: Let_def)
        ultimately show ?thesis using Cons.IH [OF _ len rest] by simp
      qed
    next
      case (Some j)
      then have j: "j < i" "eligible t (all ! j)" "thr = bt (all ! j)" "thr < INT_MAX"
        and old: "\<forall>k < i. eligible t (all ! k) \<longrightarrow> no_worse (all ! j) (all ! k)"
        using Cons.prems(1) by (simp_all add: scan_inv_def)
      define found where
        "found = (if bt p = thr then at' p < at' (all ! j) else bt p < thr)"
      have unf: "SJF_scan t all i (p # rest) thr sel =
         (if found then SJF_scan t all (Suc i) rest (bt p) (Some i)
          else SJF_scan t all (Suc i) rest thr sel)"
        using ne Some by (simp add: Let_def found_def)
      show ?thesis
      proof (cases found)
        case True
        then have better: "bt p < bt (all ! j) \<or> (bt p = bt (all ! j) \<and> at' p < at' (all ! j))"
          using j(3) by (auto simp: found_def split: if_splits)
        have "no_worse p (all ! k)" if "k < i" "eligible t (all ! k)" for k
          using old that better by (fastforce simp: no_worse_def)
        then have "scan_inv t all (Suc i) (bt p) (Some i)"
          using p \<open>eligible t p\<close> better j(3,4)
          by (auto simp: scan_inv_def less_Suc no_worse_def)
        then show ?thesis using Cons.IH [OF _ len rest] unf True by simp
      next
        case False
        then have "no_worse (all ! j) p"
          using j(3) by (auto simp: found_def no_worse_def split: if_splits)
        then have "scan_inv t all (Suc i) thr sel"
          using p Some j old by (auto simp: scan_inv_def less_Suc)
        then show ?thesis using Cons.IH [OF _ len rest] unf False by simp
      qed
    qed
  qed
qed

lemma SJF_select_Some:
  assumes "SJF_select t ps = Some j"
  shows "j < length ps" and "eligible t (ps ! j)" and "bt (ps ! j) < INT_MAX"
    and "\<forall>k < length ps. eligible t (ps ! k) \<longrightarrow> no_worse (ps ! j) (ps ! k)"
proof -
  have "scan_inv t ps 0 INT_MAX None" by (simp add: scan_inv_def)
  then obtain thr' where "scan_inv t ps (length ps) thr' (SJF_scan t ps 0 ps INT_MAX None)"
    using SJF_scan_inv [of t ps 0 INT_MAX None ps] by auto
  then have "scan_inv t ps (length ps) thr' (Some j)"
    using assms by (simp add: SJF_select_def)
  then show "j < length ps" and "eligible t (ps ! j)" and "bt (ps ! j) < INT_MAX"
    and "\<forall>k < length ps. eligible t (ps ! k) \<longrightarrow> no_worse (ps ! j) (ps ! k)"
    by (simp_all add: scan_inv_def)
qed

lemma SJF_select_None:
  assumes "SJF_select t ps = None"
  shows "\<forall>k < length ps. eligible t (ps ! k) \<longrightarrow> INT_MAX \<le> bt (ps ! k)"
proof -
  have "scan_inv t ps 0 INT_MAX None" by (simp add: scan_inv_def)
  then obtain thr' where "scan_inv t ps (length ps) thr' (SJF_scan t ps 0 ps INT_MAX None)"
    using SJF_scan_inv [of t ps 0 INT_MAX None ps] by auto
  then have "scan_inv t ps (length ps) thr' None"
    using assms by (simp add: SJF_select_def)
  then show ?thesis by (simp add: scan_inv_def)
qed

section \<open>The SJF loop: invariant, partial correctness, termination\<close>

lemma count_finished_update_new:
  assumes "i < length ps" and "\<not> finished (ps ! i)" and "finished p'"
  shows "length (filter finished (ps[i := p'])) = Suc (length (filter finished ps))"
proof -
  have a: "ps = take i ps @ ps ! i # drop (Suc i) ps"
    using assms(1) by (rule id_take_nth_drop)
  have b: "ps[i := p'] = take i ps @ p' # drop (Suc i) ps"
    using assms(1) by (rule upd_conv_take_nth_drop)
  have "length (filter finished ps) =
        length (filter finished (take i ps)) + length (filter finished (drop (Suc i) ps))"
    by (subst a) (simp add: assms(2))
  moreover have "length (filter finished (ps[i := p'])) =
        length (filter finished (take i ps)) + Suc (length (filter finished (drop (Suc i) ps)))"
    unfolding b by (simp add: assms(3))
  ultimately show ?thesis by simp
qed

lemma count_finished_update_same:
  assumes "i < length ps" and "finished p' = finished (ps ! i)"
  shows "length (filter finished (ps[i := p'])) = length (filter finished ps)"
proof -
  have a: "ps = take i ps @ ps ! i # drop (Suc i) ps"
    using assms(1) by (rule id_take_nth_drop)
  have b: "ps[i := p'] = take i ps @ p' # drop (Suc i) ps"
    using assms(1) by (rule upd_conv_take_nth_drop)
  have "length (filter finished ps) =
        length (filter finished (take i ps)) +
        length (filter finished [ps ! i]) + length (filter finished (drop (Suc i) ps))"
    by (subst a) simp
  moreover have "length (filter finished (ps[i := p'])) =
        length (filter finished (take i ps)) +
        length (filter finished [p']) + length (filter finished (drop (Suc i) ps))"
    unfolding b by simp
  ultimately show ?thesis using assms(2) by simp
qed

lemma all_finished_iff:
  "length (filter finished ps) = length ps \<longleftrightarrow> (\<forall>p \<in> set ps. finished p)"
  by (metis filter_True length_filter_less less_irrefl_nat filter_id_conv)

lemma exists_unfinished:
  assumes "length (filter finished ps) < length ps"
  shows "\<exists>k < length ps. \<not> finished (ps ! k)"
proof -
  have "\<not> (\<forall>p \<in> set ps. finished p)" using assms all_finished_iff [of ps] by auto
  then show ?thesis by (auto simp: in_set_conv_nth)
qed

lemma SJF_dispatch_fields:
  assumes "j < length (processes s)"
  shows "\<exists>p'. processes (SJF_dispatch j s) = (processes s)[j := p'] \<and> finished p' \<and>
           metrics_ok p' \<and> at' p' = at' (processes s ! j) \<and> bt p' = bt (processes s ! j) \<and>
           st p' = time_passed s \<and> ct p' = time_passed s + bt (processes s ! j)"
    and "finished_count (SJF_dispatch j s) = Suc (finished_count s)"
    and "time_passed (SJF_dispatch j s) = time_passed s + bt (processes s ! j)"
proof -
  define p where "p = processes s ! j"
  show "\<exists>p'. processes (SJF_dispatch j s) = (processes s)[j := p'] \<and> finished p' \<and>
           metrics_ok p' \<and> at' p' = at' (processes s ! j) \<and> bt p' = bt (processes s ! j) \<and>
           st p' = time_passed s \<and> ct p' = time_passed s + bt (processes s ! j)"
    by (rule exI [of _ "p\<lparr>st := time_passed s, ct := time_passed s + bt p,
          tt := time_passed s + bt p - at' p, rt := time_passed s - at' p,
          wt := time_passed s + bt p - at' p - bt p, finished := True\<rparr>"])
       (simp add: SJF_dispatch_def Let_def p_def metrics_ok_def)
  show "finished_count (SJF_dispatch j s) = Suc (finished_count s)"
    by (simp add: SJF_dispatch_def Let_def)
  show "time_passed (SJF_dispatch j s) = time_passed s + bt (processes s ! j)"
    by (simp add: SJF_dispatch_def Let_def)
qed

lemma SJF_step_inv:
  assumes "SJF_inv s"
  shows "SJF_inv (SJF_step s)" and "length (processes (SJF_step s)) = length (processes s)"
proof -
  have "SJF_inv (SJF_step s) \<and> length (processes (SJF_step s)) = length (processes s)"
  proof (cases "SJF_select (time_passed s) (processes s)")
    case None
    then have "SJF_step s = s\<lparr>time_passed := time_passed s + 1\<rparr>" by (simp add: SJF_step_def)
    then show ?thesis using assms by (simp add: SJF_inv_def)
  next
    case (Some j)
    have j: "j < length (processes s)" and nf: "\<not> finished (processes s ! j)"
      using SJF_select_Some(1,2) [OF Some] by (simp_all add: eligible_def)
    have step: "SJF_step s = SJF_dispatch j s" using Some by (simp add: SJF_step_def)
    obtain p' where ps': "processes (SJF_dispatch j s) = (processes s)[j := p']"
      and p': "finished p'" "metrics_ok p'"
      using SJF_dispatch_fields(1) [OF j] by blast
    have cnt: "finished_count (SJF_dispatch j s) =
               length (filter finished (processes (SJF_dispatch j s)))"
      using assms count_finished_update_new [OF j nf p'(1)] SJF_dispatch_fields(2) [OF j]
      by (simp add: ps' SJF_inv_def)
    have "metrics_ok p" if "p \<in> set ((processes s)[j := p'])" "finished p" for p
      using that assms p'(2) set_update_subset_insert [of "processes s" j p']
      by (auto simp: SJF_inv_def)
    then show ?thesis using cnt step ps' by (simp add: SJF_inv_def)
  qed
  then show "SJF_inv (SJF_step s)" and "length (processes (SJF_step s)) = length (processes s)"
    by simp_all
qed

lemma SJF_loop_partial:
  assumes "SJF_loop s = Some s'" and "SJF_inv s"
  shows "SJF_inv s' \<and> length (processes s') = length (processes s) \<and>
     (\<forall>p \<in> set (processes s'). finished p)"
proof -
  have "SJF_inv s \<longrightarrow> SJF_inv s' \<and> length (processes s') = length (processes s) \<and>
     (\<forall>p \<in> set (processes s'). finished p)"
  proof (rule SJF_loop.raw_induct [where P = "\<lambda>s s'. SJF_inv s \<longrightarrow> SJF_inv s' \<and>
         length (processes s') = length (processes s) \<and> (\<forall>p \<in> set (processes s'). finished p)",
         OF _ assms(1)])
    fix loop s s'
    assume IH: "\<And>s s'. loop s = Some s' \<Longrightarrow>
        SJF_inv s \<longrightarrow> SJF_inv s' \<and> length (processes s') = length (processes s) \<and>
          (\<forall>p \<in> set (processes s'). finished p)"
      and body: "(if finished_count s < length (processes s) then loop (SJF_step s) else Some s)
                 = Some s'"
    show "SJF_inv s \<longrightarrow> SJF_inv s' \<and> length (processes s') = length (processes s) \<and>
          (\<forall>p \<in> set (processes s'). finished p)"
    proof
      assume inv: "SJF_inv s"
      show "SJF_inv s' \<and> length (processes s') = length (processes s) \<and>
          (\<forall>p \<in> set (processes s'). finished p)"
      proof (cases "finished_count s < length (processes s)")
        case True
        then have "loop (SJF_step s) = Some s'" using body by simp
        then show ?thesis
          using IH [of "SJF_step s" s'] SJF_step_inv [OF inv] by simp
      next
        case False
        then have s': "s' = s" using body by simp
        have "length (filter finished (processes s)) = length (processes s)"
          using False inv length_filter_le [of finished "processes s"]
          unfolding SJF_inv_def by linarith
        then show ?thesis using inv s' all_finished_iff [of "processes s"] by simp
      qed
    qed
  qed
  then show ?thesis using assms(2) by simp
qed

lemma SJF_step_sentinel:
  "0 \<le> t \<Longrightarrow> SJF_step (sentinel_state t) = sentinel_state (t + 1)"
  by (simp add: SJF_step_def SJF_select_def sentinel_state_def mk_process_def)

lemma SJF_loop_sentinel:
  assumes "0 \<le> t"
  shows "SJF_loop (sentinel_state t) = None"
proof (rule ccontr)
  assume "SJF_loop (sentinel_state t) \<noteq> None"
  then obtain y where y: "SJF_loop (sentinel_state t) = Some y" by auto
  have "\<forall>u \<ge> 0. sentinel_state t \<noteq> sentinel_state u"
  proof (rule SJF_loop.raw_induct [where P = "\<lambda>s y. \<forall>u \<ge> 0. s \<noteq> sentinel_state u", OF _ y])
    fix loop s y
    assume IH: "\<And>s y. loop s = Some y \<Longrightarrow> \<forall>u \<ge> 0. s \<noteq> sentinel_state u"
      and body: "(if finished_count s < length (processes s) then loop (SJF_step s) else Some s)
                 = Some y"
    show "\<forall>u \<ge> 0. s \<noteq> sentinel_state u"
    proof (intro allI impI notI)
      fix u :: int assume u: "0 \<le> u" and s: "s = sentinel_state u"
      have "finished_count s < length (processes s)" by (simp add: s sentinel_state_def)
      then have "loop (sentinel_state (u + 1)) = Some y"
        using body SJF_step_sentinel [OF u] by (simp add: s)
      then have "\<forall>v \<ge> 0. sentinel_state (u + 1) \<noteq> sentinel_state v"
        by (rule IH)
      moreover have "0 \<le> u + 1" using u by simp
      ultimately show False by blast
    qed
  qed
  then show False using assms by blast
qed

lemma SJF_step_unchanged:
  "map at' (processes (SJF_step s)) = map at' (processes s)"
  "map bt (processes (SJF_step s)) = map bt (processes s)"
proof -
  have "map at' (processes (SJF_step s)) = map at' (processes s) \<and>
        map bt (processes (SJF_step s)) = map bt (processes s)"
  proof (cases "SJF_select (time_passed s) (processes s)")
    case None
    then show ?thesis by (simp add: SJF_step_def)
  next
    case (Some j)
    have j: "j < length (processes s)" using SJF_select_Some(1) [OF Some] .
    obtain p' where "processes (SJF_dispatch j s) = (processes s)[j := p']"
      and "at' p' = at' (processes s ! j)" and "bt p' = bt (processes s ! j)"
      using SJF_dispatch_fields(1) [OF j] by blast
    then show ?thesis using Some j by (simp add: SJF_step_def map_update list_update_same_conv)
  qed
  then show "map at' (processes (SJF_step s)) = map at' (processes s)"
    and "map bt (processes (SJF_step s)) = map bt (processes s)" by simp_all
qed

lemma SJF_loop_terminates:
  assumes "SJF_inv s"
    and "\<forall>p \<in> set (processes s). bt p < INT_MAX \<and> at' p \<le> M"
  shows "\<exists>s'. SJF_loop s = Some s'"
  using assms
proof (induction s rule: wf_induct_rule [OF wf_measures
        [of "[\<lambda>s. length (processes s) - finished_count s, \<lambda>s. nat (M - time_passed s)]"]])
  case (1 s)
  show ?case
  proof (cases "finished_count s < length (processes s)")
    case False
    then show ?thesis by (subst SJF_loop.simps) simp
  next
    case True
    have inv': "SJF_inv (SJF_step s)" and len: "length (processes (SJF_step s)) = length (processes s)"
      using SJF_step_inv [OF "1.prems"(1)] by simp_all
    have bnd: "\<forall>p \<in> set (processes (SJF_step s)). bt p < INT_MAX \<and> at' p \<le> M"
    proof
      fix p assume "p \<in> set (processes (SJF_step s))"
      then obtain k where k: "k < length (processes (SJF_step s))" "p = processes (SJF_step s) ! k"
        by (auto simp: in_set_conv_nth)
      have "at' p = map at' (processes (SJF_step s)) ! k" "bt p = map bt (processes (SJF_step s)) ! k"
        using k by simp_all
      then have "at' p = at' (processes s ! k)" "bt p = bt (processes s ! k)"
        using k len by (simp_all add: SJF_step_unchanged)
      then show "bt p < INT_MAX \<and> at' p \<le> M"
        using "1.prems"(2) k len by (metis nth_mem)
    qed
    have dec: "(SJF_step s, s) \<in> measures
        [\<lambda>s. length (processes s) - finished_count s, \<lambda>s. nat (M - time_passed s)]"
    proof (cases "SJF_select (time_passed s) (processes s)")
      case (Some j)
      have j: "j < length (processes s)" using SJF_select_Some(1) [OF Some] .
      have "finished_count (SJF_step s) = Suc (finished_count s)"
        using Some SJF_dispatch_fields(2) [OF j] by (simp add: SJF_step_def)
      then show ?thesis using True len by (simp add: diff_less_mono2)
    next
      case None
      then have step: "SJF_step s = s\<lparr>time_passed := time_passed s + 1\<rparr>"
        by (simp add: SJF_step_def)
      have "length (filter finished (processes s)) < length (processes s)"
        using True "1.prems"(1) by (simp add: SJF_inv_def)
      then obtain k where k: "k < length (processes s)" "\<not> finished (processes s ! k)"
        using exists_unfinished by blast
      have "bt (processes s ! k) < INT_MAX" "at' (processes s ! k) \<le> M"
        using "1.prems"(2) k(1) by simp_all
      moreover have "eligible (time_passed s) (processes s ! k) \<longrightarrow> INT_MAX \<le> bt (processes s ! k)"
        using SJF_select_None [OF None] k(1) by blast
      ultimately have "time_passed s < M" using k(2) by (auto simp: eligible_def)
      then show ?thesis by (simp add: step)
    qed
    from "1.IH" [OF dec inv' bnd] obtain s' where "SJF_loop (SJF_step s) = Some s'" by blast
    then show ?thesis using True by (subst SJF_loop.simps) simp
  qed
qed

lemma SJF_Start_returns:
  assumes "\<forall>p \<in> set ps. \<not> finished p \<and> bt p < INT_MAX"
  shows "\<exists>ps' m. SJF_Start ps = Some (ps', m) \<and> length ps' = length ps \<and>
           (\<forall>p \<in> set ps'. finished p \<and> metrics_ok p)"
proof -
  have nf: "filter finished ps = []" using assms by (auto simp: filter_empty_conv)
  then have inv: "SJF_inv (SJF_init ps)"
    using assms by (simp add: SJF_inv_def SJF_init_def)
  have "\<forall>p \<in> set (processes (SJF_init ps)). bt p < INT_MAX \<and> at' p \<le> Max (at' ` set ps)"
    using assms by (simp add: SJF_init_def)
  then obtain s' where s': "SJF_loop (SJF_init ps) = Some s'"
    using SJF_loop_terminates [OF inv] by blast
  have "SJF_inv s' \<and> length (processes s') = length (processes (SJF_init ps)) \<and>
     (\<forall>p \<in> set (processes s'). finished p)"
    using SJF_loop_partial [OF s' inv] .
  then show ?thesis using s' by (auto simp: SJF_Start_def SJF_init_def SJF_inv_def)
qed

text \<open>
  Below the sentinel the selection is what the specification describes: if some process
  is eligible, the scan returns an eligible process with minimal burst time and, among
  those, minimal arrival time; if none is eligible it returns nothing and the step only
  advances the clock by one.
\<close>

lemma SJF_select_minimal:
  assumes "\<forall>p \<in> set ps. bt p < INT_MAX"
  shows "(\<exists>k < length ps. eligible t (ps ! k)) \<longrightarrow>
           (\<exists>j. SJF_select t ps = Some j \<and> j < length ps \<and> eligible t (ps ! j) \<and>
                (\<forall>k < length ps. eligible t (ps ! k) \<longrightarrow> no_worse (ps ! j) (ps ! k)))"
    and "(\<forall>k < length ps. \<not> eligible t (ps ! k)) \<longrightarrow> SJF_select t ps = None"
proof -
  show "(\<exists>k < length ps. eligible t (ps ! k)) \<longrightarrow>
           (\<exists>j. SJF_select t ps = Some j \<and> j < length ps \<and> eligible t (ps ! j) \<and>
                (\<forall>k < length ps. eligible t (ps ! k) \<longrightarrow> no_worse (ps ! j) (ps ! k)))"
  proof
    assume "\<exists>k < length ps. eligible t (ps ! k)"
    then obtain k where k: "k < length ps" "eligible t (ps ! k)" by blast
    then have "bt (ps ! k) < INT_MAX" using assms by simp
    then have "SJF_select t ps \<noteq> None" using SJF_select_None [of t ps] k by fastforce
    then obtain j where j: "SJF_select t ps = Some j" by auto
    show "\<exists>j. SJF_select t ps = Some j \<and> j < length ps \<and> eligible t (ps ! j) \<and>
                (\<forall>k < length ps. eligible t (ps ! k) \<longrightarrow> no_worse (ps ! j) (ps ! k))"
      using SJF_select_Some [OF j] j by blast
  qed
  show "(\<forall>k < length ps. \<not> eligible t (ps ! k)) \<longrightarrow> SJF_select t ps = None"
  proof
    assume none: "\<forall>k < length ps. \<not> eligible t (ps ! k)"
    show "SJF_select t ps = None"
    proof (cases "SJF_select t ps")
      case None
      then show ?thesis .
    next
      case (Some j)
      then show ?thesis using SJF_select_Some(1,2) [OF Some] none by blast
    qed
  qed
qed

section \<open>Claim C4: the SJF selection\<close>

text \<open>
  C4: at every decision the engine selects, among the not-finished processes that have
  arrived, one with minimum burst time.  The scan starts from the threshold
  \<open>INT_MAX\<close> and accepts a process only if its burst is strictly below the threshold
  (the tie branch needs a process already selected), so a process whose burst time is
  \<open>INT_MAX\<close> is never selected: on the single process (0, INT_MAX) at clock 0 the
  process is eligible, the scan returns nothing, and the step advances the clock.
  For bursts below \<open>INT_MAX\<close> the claim holds (\<open>SJF_select_minimal\<close>).
\<close>

theorem C4_sentinel_burst_not_selected:
  "eligible 0 (mk_process 0 INT_MAX) \<and>
   SJF_select 0 [mk_process 0 INT_MAX] = None \<and>
   SJF_step (SJF_init [mk_process 0 INT_MAX]) =
     (SJF_init [mk_process 0 INT_MAX])\<lparr>time_passed := 1\<rparr>"
  by (simp add: eligible_def SJF_step_def SJF_select_def SJF_init_def mk_process_def)

section \<open>The round-robin loop: invariant, partial correctness, termination\<close>

lemma count_finished_cong:
  fixes ps ps' :: "Process list"
  assumes a: "map finished ps' = map finished ps"
  shows "length (filter finished ps') = length (filter finished ps)"
proof -
  have b: "length (filter finished xs) = length (filter id (map finished xs))"
    for xs :: "Process list"
    by (simp add: filter_map comp_def)
  show ?thesis unfolding b [of ps'] b [of ps] a ..
qed

lemma RR_dispatch_inv:
  assumes "c < length (processes s)" and "\<not> finished (processes s ! c)"
    and "finished_count s = length (filter finished (processes s))"
  shows "\<exists>curr'. processes (RR_dispatch q c s) = (processes s)[c := curr'] \<and>
           ready_indexes_queue (RR_dispatch q c s) = ready_indexes_queue s \<and>
           queued curr' = queued (processes s ! c) \<and>
           (finished curr' \<longrightarrow> metrics_ok curr') \<and>
           finished_count (RR_dispatch q c s) =
             length (filter finished ((processes s)[c := curr']))"
proof (cases "rbt (processes s ! c) - q > 0")
  case True
  obtain curr' where d: "RR_dispatch q c s =
     s\<lparr>processes := (processes s)[c := curr'],
       time_passed := (if rbt (processes s ! c) = bt (processes s ! c)
                       then max (time_passed s) (at' (processes s ! c)) else time_passed s) + q\<rparr>"
    and f: "queued curr' = queued (processes s ! c)" "finished curr' = finished (processes s ! c)"
    using RR_dispatch_continue [OF True] by blast
  have "length (filter finished ((processes s)[c := curr'])) = length (filter finished (processes s))"
    using count_finished_update_same [OF assms(1) f(2)] .
  then show ?thesis
    using f assms(2,3) by (intro exI [of _ curr']) (simp add: d)
next
  case False
  obtain curr' where d: "RR_dispatch q c s =
     s\<lparr>processes := (processes s)[c := curr'],
       time_passed := (if rbt (processes s ! c) = bt (processes s ! c)
                       then max (time_passed s) (at' (processes s ! c)) else time_passed s)
                      + rbt (processes s ! c),
       finished_count := finished_count s + 1,
       metrics := accumulate (metrics s) curr'\<rparr>"
    and f: "queued curr' = queued (processes s ! c)" "finished curr'"
      "tt curr' = ct curr' - at' curr'" "rt curr' = st curr' - at' curr'"
      "wt curr' = tt curr' - bt curr'"
    using RR_dispatch_finish [OF False] by blast
  have "length (filter finished ((processes s)[c := curr'])) =
        Suc (length (filter finished (processes s)))"
    using count_finished_update_new [OF assms(1,2) f(2)] .
  then show ?thesis
    using f assms(3) by (intro exI [of _ curr']) (simp add: d metrics_ok_def)
qed

lemma RR_recover_nonempty:
  "ready_indexes_queue s \<noteq> [] \<Longrightarrow> RR_recover s = s"
  by (simp add: RR_recover_def)

lemma RR_recover_none:
  assumes "ready_indexes_queue s = []"
    and "\<forall>k. 1 \<le> k \<and> k < length (processes s) \<longrightarrow> finished (processes s ! k)"
  shows "RR_recover s = s"
proof (cases "processes s")
  case Nil
  then show ?thesis using assms(1) by (simp add: RR_recover_def)
next
  case (Cons p0 rest)
  have "\<forall>p \<in> set rest. finished p"
  proof
    fix p assume "p \<in> set rest"
    then obtain j where j: "j < length rest" "p = rest ! j" by (auto simp: in_set_conv_nth)
    have "1 \<le> Suc j \<and> Suc j < length (processes s)" using j Cons by simp
    then have "finished (processes s ! Suc j)" using assms(2) by blast
    then show "finished p" using j Cons by simp
  qed
  then have "RR_recover_from 1 rest [] = (rest, [])" by (rule RR_recover_from_none)
  then show ?thesis using assms(1) Cons by (simp add: RR_recover_def)
qed

lemma RR_recover_first:
  assumes "ready_indexes_queue s = []"
    and "1 \<le> k" and "k < length (processes s)" and "\<not> finished (processes s ! k)"
    and "\<forall>j. 1 \<le> j \<and> j < k \<longrightarrow> finished (processes s ! j)"
  shows "RR_recover s =
     s\<lparr>processes := (processes s)[k := (processes s ! k)\<lparr>queued := True\<rparr>],
       ready_indexes_queue := [k]\<rparr>"
proof -
  obtain p0 tl3 where ps3: "processes s = p0 # tl3"
    using assms(3) by (cases "processes s") auto
  obtain k' where k': "k = Suc k'" using assms(2) by (cases k) auto
  have "k' < length tl3" using assms(3) ps3 k' by simp
  moreover have "\<not> finished (tl3 ! k')" using assms(4) ps3 k' by simp
  moreover have "\<forall>j < k'. finished (tl3 ! j)"
  proof (intro allI impI)
    fix j assume "j < k'"
    then have "1 \<le> Suc j \<and> Suc j < k" using k' by simp
    then have "finished (processes s ! Suc j)" using assms(5) by blast
    then show "finished (tl3 ! j)" using ps3 by simp
  qed
  ultimately have "RR_recover_from 1 tl3 [] = (tl3[k' := (tl3 ! k')\<lparr>queued := True\<rparr>], [] @ [1 + k'])"
    by (rule RR_recover_from_first)
  then have "RR_recover s =
     s\<lparr>processes := p0 # tl3[k' := (tl3 ! k')\<lparr>queued := True\<rparr>], ready_indexes_queue := [k]\<rparr>"
    using assms(1) ps3 k' by (simp add: RR_recover_def)
  moreover have "(processes s)[k := (processes s ! k)\<lparr>queued := True\<rparr>] =
     p0 # tl3[k' := (tl3 ! k')\<lparr>queued := True\<rparr>]"
    using ps3 k' by simp
  ultimately show ?thesis by simp
qed

lemma sweep_marks_finished:
  "k < length ps \<Longrightarrow> finished (sweep_marks t ps ! k) = finished (ps ! k)"
  by (simp add: nth_sweep_marks)

lemma metrics_ok_mark: "metrics_ok (mark t p) = metrics_ok p"
  by (simp add: metrics_ok_def)

lemma sweep_marks_metrics_ok:
  "k < length ps \<Longrightarrow> metrics_ok (sweep_marks t ps ! k) = metrics_ok (ps ! k)"
  by (simp add: nth_sweep_marks metrics_ok_mark)

lemma sweep_marks_queued_mono:
  "k < length ps \<Longrightarrow> queued (ps ! k) \<Longrightarrow> queued (sweep_marks t ps ! k)"
  by (cases "k = 0") (simp_all add: nth_sweep_marks)

lemma sweep_marks_queued_arrives:
  "k < length ps \<Longrightarrow> 1 \<le> k \<Longrightarrow> arrives t (ps ! k) \<Longrightarrow> queued (sweep_marks t ps ! k)"
  by (simp add: nth_sweep_marks)

lemma sweep_marks_count:
  "length (filter finished (sweep_marks t ps)) = length (filter finished ps)"
proof (rule count_finished_cong)
  show "map finished (sweep_marks t ps) = map finished ps"
    by (rule nth_equalityI) (simp_all add: sweep_marks_finished)
qed

lemma RR_recover_inv:
  assumes "RR_pre_inv s"
  shows "RR_inv (RR_recover s) \<and> length (processes (RR_recover s)) = length (processes s)"
proof (cases "ready_indexes_queue s = []")
  case False
  then show ?thesis using assms by (simp add: RR_recover_nonempty RR_pre_inv_def RR_inv_def)
next
  case empty: True
  have zero: "0 < length (processes s) \<Longrightarrow> finished (processes s ! 0)"
    using assms empty by (auto simp: RR_pre_inv_def)
  show ?thesis
  proof (cases "\<forall>k. 1 \<le> k \<and> k < length (processes s) \<longrightarrow> finished (processes s ! k)")
    case True
    have all: "finished (processes s ! k)" if "k < length (processes s)" for k
      using that True zero by (cases "k = 0") auto
    have "RR_recover s = s" using empty True by (rule RR_recover_none)
    then show ?thesis using assms all by (simp add: RR_pre_inv_def RR_inv_def)
  next
    case False
    then have ex: "\<exists>k. 1 \<le> k \<and> k < length (processes s) \<and> \<not> finished (processes s ! k)"
      by blast
    define k where "k = (LEAST k. 1 \<le> k \<and> k < length (processes s) \<and> \<not> finished (processes s ! k))"
    have k: "1 \<le> k" "k < length (processes s)" "\<not> finished (processes s ! k)"
      using LeastI_ex [OF ex] by (simp_all add: k_def)
    have least: "\<forall>j. 1 \<le> j \<and> j < k \<longrightarrow> finished (processes s ! j)"
    proof (intro allI impI)
      fix j assume j: "1 \<le> j \<and> j < k"
      then have "\<not> (1 \<le> j \<and> j < length (processes s) \<and> \<not> finished (processes s ! j))"
        using not_less_Least [of j "\<lambda>k. 1 \<le> k \<and> k < length (processes s) \<and> \<not> finished (processes s ! k)"]
        by (simp add: k_def)
      then show "finished (processes s ! j)" using j k(2) by auto
    qed
    define ps' where "ps' = (processes s)[k := (processes s ! k)\<lparr>queued := True\<rparr>]"
    have rec: "RR_recover s = s\<lparr>processes := ps', ready_indexes_queue := [k]\<rparr>"
      unfolding ps'_def using empty k least by (rule RR_recover_first)
    have len: "length ps' = length (processes s)" by (simp add: ps'_def)
    have k': "ps' ! k = (processes s ! k)\<lparr>queued := True\<rparr>"
      using k(2) by (simp add: ps'_def)
    have other: "ps' ! j = processes s ! j" if "j \<noteq> k" for j
      using that by (simp add: ps'_def)
    have fin: "finished (ps' ! j) = finished (processes s ! j)" if "j < length (processes s)" for j
      using that k' other [of j] by (cases "j = k") simp_all
    have cnt: "length (filter finished ps') = length (filter finished (processes s))"
      unfolding ps'_def by (rule count_finished_update_same [OF k(2)]) simp
    have mok: "metrics_ok (ps' ! j)"
      if "j < length (processes s)" "finished (ps' ! j)" for j
    proof (cases "j = k")
      case True
      then show ?thesis using that fin [of j] k(3) by simp
    next
      case False
      then show ?thesis using that fin [of j] other [of j] assms by (simp add: RR_pre_inv_def)
    qed
    have z: "\<not> (0 < length ps' \<and> \<not> finished (ps' ! 0))"
      using zero fin [of 0] len by auto
    have "RR_inv (s\<lparr>processes := ps', ready_indexes_queue := [k]\<rparr>)"
      unfolding RR_inv_def
    proof (intro conjI)
      show "distinct (ready_indexes_queue (s\<lparr>processes := ps', ready_indexes_queue := [k]\<rparr>))"
        by simp
      show "\<forall>i\<in>set (ready_indexes_queue (s\<lparr>processes := ps', ready_indexes_queue := [k]\<rparr>)).
         i < length (processes (s\<lparr>processes := ps', ready_indexes_queue := [k]\<rparr>)) \<and>
         \<not> finished (processes (s\<lparr>processes := ps', ready_indexes_queue := [k]\<rparr>) ! i) \<and>
         (0 < i \<longrightarrow> queued (processes (s\<lparr>processes := ps', ready_indexes_queue := [k]\<rparr>) ! i))"
        using k len fin [of k] k' by simp
      show "0 < length (processes (s\<lparr>processes := ps', ready_indexes_queue := [k]\<rparr>)) \<and>
        \<not> finished (processes (s\<lparr>processes := ps', ready_indexes_queue := [k]\<rparr>) ! 0) \<longrightarrow>
        0 \<in> set (ready_indexes_queue (s\<lparr>processes := ps', ready_indexes_queue := [k]\<rparr>))"
        using z by auto
      show "ready_indexes_queue (s\<lparr>processes := ps', ready_indexes_queue := [k]\<rparr>) = [] \<longrightarrow>
        (\<forall>ka<length (processes (s\<lparr>processes := ps', ready_indexes_queue := [k]\<rparr>)).
            finished (processes (s\<lparr>processes := ps', ready_indexes_queue := [k]\<rparr>) ! ka))"
        by simp
      show "finished_count (s\<lparr>processes := ps', ready_indexes_queue := [k]\<rparr>) =
        length (filter finished (processes (s\<lparr>processes := ps', ready_indexes_queue := [k]\<rparr>)))"
        using assms cnt by (simp add: RR_pre_inv_def)
      show "\<forall>ka<length (processes (s\<lparr>processes := ps', ready_indexes_queue := [k]\<rparr>)).
        finished (processes (s\<lparr>processes := ps', ready_indexes_queue := [k]\<rparr>) ! ka) \<longrightarrow>
        metrics_ok (processes (s\<lparr>processes := ps', ready_indexes_queue := [k]\<rparr>) ! ka)"
        using mok len by simp
    qed
    then show ?thesis using rec len by simp
  qed
qed

lemma sweep_marks_rbt: "map rbt (sweep_marks t ps) = map rbt ps"
  by (rule nth_equalityI) (simp_all add: nth_sweep_marks)

lemma sum_rbt_cong:
  fixes ps ps' :: "Process list"
  assumes "map rbt ps' = map rbt ps"
  shows "sum_list (map (\<lambda>p. nat (rbt p)) ps') = sum_list (map (\<lambda>p. nat (rbt p)) ps)"
proof -
  have "map (\<lambda>p. nat (rbt p)) xs = map nat (map rbt xs)" for xs :: "Process list"
    by simp
  then show ?thesis using assms by metis
qed

lemma sum_rbt_update:
  fixes ps :: "Process list"
  assumes "c < length ps"
  shows "sum_list (map (\<lambda>p. nat (rbt p)) (ps[c := x])) + nat (rbt (ps ! c)) =
         sum_list (map (\<lambda>p. nat (rbt p)) ps) + nat (rbt x)"
proof -
  have a: "ps = take c ps @ ps ! c # drop (Suc c) ps"
    using assms by (rule id_take_nth_drop)
  have b: "ps[c := x] = take c ps @ x # drop (Suc c) ps"
    using assms by (rule upd_conv_take_nth_drop)
  have "sum_list (map (\<lambda>p. nat (rbt p)) ps) =
     sum_list (map (\<lambda>p. nat (rbt p)) (take c ps)) + nat (rbt (ps ! c)) +
     sum_list (map (\<lambda>p. nat (rbt p)) (drop (Suc c) ps))"
    by (subst a) simp
  moreover have "sum_list (map (\<lambda>p. nat (rbt p)) (ps[c := x])) =
     sum_list (map (\<lambda>p. nat (rbt p)) (take c ps)) + nat (rbt x) +
     sum_list (map (\<lambda>p. nat (rbt p)) (drop (Suc c) ps))"
    unfolding b by simp
  ultimately show ?thesis by simp
qed

lemma RR_dispatch_measure:
  assumes "c < length (processes s)" and "finished_count s < length (processes s)" and "0 < q"
  shows "RR_measure (RR_dispatch q c s) < RR_measure s"
proof (cases "rbt (processes s ! c) - q > 0")
  case True
  obtain curr' where d: "RR_dispatch q c s =
     s\<lparr>processes := (processes s)[c := curr'],
       time_passed := (if rbt (processes s ! c) = bt (processes s ! c)
                       then max (time_passed s) (at' (processes s ! c)) else time_passed s) + q\<rparr>"
    and r: "rbt curr' = rbt (processes s ! c) - q"
    using RR_dispatch_continue [OF True] by blast
  have "nat (rbt curr') < nat (rbt (processes s ! c))" using True assms(3) r by simp
  then have "sum_list (map (\<lambda>p. nat (rbt p)) ((processes s)[c := curr'])) <
             sum_list (map (\<lambda>p. nat (rbt p)) (processes s))"
    using sum_rbt_update [OF assms(1), of curr'] by linarith
  then show ?thesis by (simp add: d RR_measure_def)
next
  case False
  obtain curr' where d: "RR_dispatch q c s =
     s\<lparr>processes := (processes s)[c := curr'],
       time_passed := (if rbt (processes s ! c) = bt (processes s ! c)
                       then max (time_passed s) (at' (processes s ! c)) else time_passed s)
                      + rbt (processes s ! c),
       finished_count := finished_count s + 1,
       metrics := accumulate (metrics s) curr'\<rparr>"
    and r: "rbt curr' = 0"
    using RR_dispatch_finish [OF False] by blast
  have "sum_list (map (\<lambda>p. nat (rbt p)) ((processes s)[c := curr'])) \<le>
             sum_list (map (\<lambda>p. nat (rbt p)) (processes s))"
    using sum_rbt_update [OF assms(1), of curr'] r by simp
  then show ?thesis using assms(2) by (simp add: d RR_measure_def)
qed

lemma RR_sweep_measure: "RR_measure (RR_sweep s) = RR_measure s"
  unfolding RR_sweep_eq
  using sum_rbt_cong [OF sweep_marks_rbt [of "time_passed s" "processes s"]]
  by (simp add: RR_measure_def)

lemma RR_requeue_measure: "RR_measure (RR_requeue c s) = RR_measure s"
  by (simp add: RR_requeue_def RR_measure_def)

lemma RR_recover_from_rbt:
  "map rbt (fst (RR_recover_from i ps qu)) = map rbt ps"
  by (induction ps arbitrary: i) (simp_all add: case_prod_beta)

lemma RR_recover_measure: "RR_measure (RR_recover s) = RR_measure s"
proof (cases "ready_indexes_queue s = [] \<and> processes s \<noteq> []")
  case False
  then show ?thesis by (auto simp: RR_recover_def split: list.splits)
next
  case True
  then obtain p0 rest where ps: "processes s = p0 # rest" by (cases "processes s") auto
  define r where "r = RR_recover_from 1 rest []"
  have "RR_recover s = s\<lparr>processes := p0 # fst r, ready_indexes_queue := snd r\<rparr>"
    using True ps by (simp add: RR_recover_def r_def case_prod_beta)
  moreover have "map rbt (fst r) = map rbt rest"
    unfolding r_def by (rule RR_recover_from_rbt)
  then have "length (fst r) = length rest"
    and "sum_list (map (\<lambda>p. nat (rbt p)) (fst r)) = sum_list (map (\<lambda>p. nat (rbt p)) rest)"
    using sum_rbt_cong [of "fst r" rest] map_eq_imp_length_eq [of rbt "fst r" rbt rest]
    by simp_all
  ultimately show ?thesis by (simp add: RR_measure_def ps)
qed

lemma RR_phases_pre_inv:
  fixes q :: int
  assumes inv: "RR_inv s" and qu: "ready_indexes_queue s = c # rest"
  defines "s3 \<equiv> RR_requeue c (RR_sweep (RR_dispatch q c (s\<lparr>ready_indexes_queue := rest\<rparr>)))"
  shows "RR_pre_inv s3" and "length (processes s3) = length (processes s)"
proof -
  define ps where "ps = processes s"
  define n where "n = length ps"
  have c: "c < n" and nfc: "\<not> finished (ps ! c)" and qc: "0 < c \<Longrightarrow> queued (ps ! c)"
    using inv qu by (simp_all add: RR_inv_def ps_def n_def)
  have crest: "c \<notin> set rest" and drest: "distinct rest"
    using inv qu by (simp_all add: RR_inv_def)
  have rest: "i < n \<and> \<not> finished (ps ! i) \<and> (0 < i \<longrightarrow> queued (ps ! i))" if "i \<in> set rest" for i
    using inv qu that by (simp add: RR_inv_def ps_def n_def)
  have zero: "0 \<in> set (c # rest)" if "0 < n" "\<not> finished (ps ! 0)"
    using inv qu that by (simp add: RR_inv_def ps_def n_def)
  have cnt: "finished_count s = length (filter finished ps)"
    using inv by (simp add: RR_inv_def ps_def)
  have mok: "metrics_ok (ps ! k)" if "k < n" "finished (ps ! k)" for k
    using inv that by (simp add: RR_inv_def ps_def n_def)
  define s0 where "s0 = s\<lparr>ready_indexes_queue := rest\<rparr>"
  have s0: "processes s0 = ps" "ready_indexes_queue s0 = rest" "finished_count s0 = finished_count s"
    by (simp_all add: s0_def ps_def)
  define s1 where "s1 = RR_dispatch q c s0"
  obtain curr' where ps1: "processes s1 = ps[c := curr']"
    and qu1: "ready_indexes_queue s1 = rest"
    and qcurr: "queued curr' = queued (ps ! c)"
    and mcurr: "finished curr' \<longrightarrow> metrics_ok curr'"
    and cnt1: "finished_count s1 = length (filter finished (ps[c := curr']))"
    using RR_dispatch_inv [of c s0 q] c nfc cnt unfolding s0 s1_def n_def by blast
  define ps1 where "ps1 = ps[c := curr']"
  have len1: "length ps1 = n" by (simp add: ps1_def n_def)
  have ps1c: "ps1 ! c = curr'" using c by (simp add: ps1_def n_def)
  have ps1o: "ps1 ! i = ps ! i" if "i \<noteq> c" for i using that by (simp add: ps1_def)
  define t where "t = time_passed s1"
  define arrivals where "arrivals = [k \<leftarrow> [1 ..< n]. arrives t (ps1 ! k)]"
  define ps2 where "ps2 = sweep_marks t ps1"
  define s2 where "s2 = RR_sweep s1"
  have s2: "processes s2 = ps2" "ready_indexes_queue s2 = rest @ arrivals"
    "finished_count s2 = finished_count s1"
    unfolding s2_def RR_sweep_eq
    by (simp_all add: ps1 qu1 ps2_def arrivals_def t_def ps1_def n_def)
  have len2: "length ps2 = n" by (simp add: ps2_def len1)
  have fin2: "finished (ps2 ! k) = finished (ps1 ! k)" if "k < n" for k
    using that by (simp add: ps2_def sweep_marks_finished len1)
  have mok2: "metrics_ok (ps2 ! k) = metrics_ok (ps1 ! k)" if "k < n" for k
    using that by (simp add: ps2_def sweep_marks_metrics_ok len1)
  have q2: "queued (ps2 ! k)" if "k < n" "queued (ps1 ! k)" for k
    using that by (simp add: ps2_def sweep_marks_queued_mono len1)
  have arr: "1 \<le> k \<and> k < n \<and> arrives t (ps1 ! k)" if "k \<in> set arrivals" for k
    using that by (simp add: arrivals_def)
  have qarr: "queued (ps2 ! k)" if "k \<in> set arrivals" for k
    using arr [OF that] by (simp add: ps2_def sweep_marks_queued_arrives len1)
  have cnt2: "finished_count s2 = length (filter finished ps2)"
    by (simp add: s2 cnt1 ps2_def sweep_marks_count ps1_def)
  have s3: "processes s3 = ps2" "finished_count s3 = finished_count s2"
    "ready_indexes_queue s3 =
       (if \<not> finished (ps2 ! c) then rest @ arrivals @ [c] else rest @ arrivals)"
    by (simp_all add: s3_def s2_def [symmetric] s1_def [symmetric] s0_def [symmetric]
        RR_requeue_def s2)
  have carr: "c \<notin> set arrivals"
  proof
    assume "c \<in> set arrivals"
    then have "1 \<le> c" "arrives t (ps1 ! c)" using arr by blast+
    then show False using qc qcurr ps1c by (simp add: arrives_def)
  qed
  have disj: "set rest \<inter> set arrivals = {}"
  proof (rule ccontr)
    assume "set rest \<inter> set arrivals \<noteq> {}"
    then obtain i where i: "i \<in> set rest" "i \<in> set arrivals" by blast
    then have "i \<noteq> c" using crest by blast
    then have "ps1 ! i = ps ! i" by (rule ps1o)
    moreover have "0 < i" "arrives t (ps1 ! i)" using arr [OF i(2)] by simp_all
    ultimately show False using rest [OF i(1)] by (simp add: arrives_def)
  qed
  have darr: "distinct arrivals" by (simp add: arrivals_def)
  have I1: "distinct (ready_indexes_queue s3)"
    using drest darr disj crest carr by (simp add: s3)
  have elem_rest: "i < n \<and> \<not> finished (ps2 ! i) \<and> (0 < i \<longrightarrow> queued (ps2 ! i))"
    if "i \<in> set rest" for i
  proof -
    have "i \<noteq> c" using that crest by blast
    then have eq: "ps1 ! i = ps ! i" by (rule ps1o)
    show ?thesis using rest [OF that] fin2 [of i] q2 [of i] eq by simp
  qed
  have elem_arr: "i < n \<and> \<not> finished (ps2 ! i) \<and> (0 < i \<longrightarrow> queued (ps2 ! i))"
    if "i \<in> set arrivals" for i
    using arr [OF that] qarr [OF that] fin2 [of i] by (simp add: arrives_def)
  have elem_c: "c < n \<and> (0 < c \<longrightarrow> queued (ps2 ! c))"
    using c qc qcurr ps1c q2 [of c] by simp
  have I2: "\<forall>i \<in> set (ready_indexes_queue s3).
        i < length (processes s3) \<and> \<not> finished (processes s3 ! i) \<and>
        (0 < i \<longrightarrow> queued (processes s3 ! i))"
  proof
    fix i assume "i \<in> set (ready_indexes_queue s3)"
    then consider "i \<in> set rest" | "i \<in> set arrivals" | "i = c" "\<not> finished (ps2 ! c)"
      by (auto simp: s3 split: if_splits)
    then show "i < length (processes s3) \<and> \<not> finished (processes s3 ! i) \<and>
        (0 < i \<longrightarrow> queued (processes s3 ! i))"
    proof cases
      case 1
      then show ?thesis using elem_rest by (simp add: s3 len2)
    next
      case 2
      then show ?thesis using elem_arr by (simp add: s3 len2)
    next
      case 3
      then show ?thesis using elem_c by (simp add: s3 len2)
    qed
  qed
  have I3: "0 < length (processes s3) \<and> \<not> finished (processes s3 ! 0)
        \<longrightarrow> 0 \<in> set (ready_indexes_queue s3)"
  proof
    assume a: "0 < length (processes s3) \<and> \<not> finished (processes s3 ! 0)"
    then have n0: "0 < n" and nf0: "\<not> finished (ps2 ! 0)" by (simp_all add: s3 len2)
    show "0 \<in> set (ready_indexes_queue s3)"
    proof (cases "c = 0")
      case True
      then show ?thesis using nf0 by (simp add: s3)
    next
      case False
      then have "ps1 ! 0 = ps ! 0" using ps1o [of 0] by simp
      then have "\<not> finished (ps ! 0)" using nf0 fin2 [OF n0] by simp
      then have "0 \<in> set rest" using zero [OF n0] False by simp
      then show ?thesis by (simp add: s3)
    qed
  qed
  have I5: "finished_count s3 = length (filter finished (processes s3))"
    by (simp add: s3 cnt2)
  have I6: "\<forall>k < length (processes s3). finished (processes s3 ! k) \<longrightarrow> metrics_ok (processes s3 ! k)"
  proof (intro allI impI)
    fix k assume k: "k < length (processes s3)" and f: "finished (processes s3 ! k)"
    then have kn: "k < n" and f1: "finished (ps1 ! k)" using fin2 [of k] by (simp_all add: s3 len2)
    have "metrics_ok (ps1 ! k)"
    proof (cases "k = c")
      case True
      then show ?thesis using f1 mcurr ps1c by simp
    next
      case False
      then show ?thesis using f1 mok [OF kn] ps1o [of k] by simp
    qed
    then show "metrics_ok (processes s3 ! k)" using mok2 [OF kn] by (simp add: s3)
  qed
  show "RR_pre_inv s3" unfolding RR_pre_inv_def using I1 I2 I3 I5 I6 by blast
  show "length (processes s3) = length (processes s)" by (simp add: s3 len2 n_def ps_def)
qed

lemma RR_inv_queue_nonempty:
  assumes "RR_inv s" and "finished_count s < length (processes s)"
  shows "ready_indexes_queue s \<noteq> []"
proof
  assume "ready_indexes_queue s = []"
  then have "\<forall>k < length (processes s). finished (processes s ! k)"
    using assms(1) by (simp add: RR_inv_def)
  then have "\<forall>p \<in> set (processes s). finished p" by (auto simp: in_set_conv_nth)
  then have "length (filter finished (processes s)) = length (processes s)"
    using all_finished_iff by blast
  then show False using assms by (simp add: RR_inv_def)
qed

lemma RR_step_inv:
  assumes "RR_inv s" and "finished_count s < length (processes s)"
  shows "\<exists>s'. RR_step q s = Inr s' \<and> RR_inv s' \<and>
           length (processes s') = length (processes s) \<and>
           (0 < q \<longrightarrow> RR_measure s' < RR_measure s)"
proof -
  obtain c rest where qu: "ready_indexes_queue s = c # rest"
    using RR_inv_queue_nonempty [OF assms] by (cases "ready_indexes_queue s") auto
  have c: "c < length (processes s)" using assms(1) qu by (simp add: RR_inv_def)
  define s0 where "s0 = s\<lparr>ready_indexes_queue := rest\<rparr>"
  define s3 where "s3 = RR_requeue c (RR_sweep (RR_dispatch q c s0))"
  have step: "RR_step q s = Inr (RR_recover s3)"
    using qu c by (simp add: RR_step_def s3_def s0_def)
  have pre: "RR_pre_inv s3" and len: "length (processes s3) = length (processes s)"
    using RR_phases_pre_inv [OF assms(1) qu, of q] by (simp_all add: s3_def s0_def)
  have inv': "RR_inv (RR_recover s3)"
    and len': "length (processes (RR_recover s3)) = length (processes s3)"
    using RR_recover_inv [OF pre] by simp_all
  have m0: "RR_measure s0 = RR_measure s" by (simp add: s0_def RR_measure_def)
  have "RR_measure (RR_recover s3) < RR_measure s" if "0 < q"
  proof -
    have "c < length (processes s0)" "finished_count s0 < length (processes s0)"
      using c assms(2) by (simp_all add: s0_def)
    then have "RR_measure (RR_dispatch q c s0) < RR_measure s0"
      using that by (rule RR_dispatch_measure)
    then show ?thesis
      by (simp add: RR_recover_measure s3_def RR_requeue_measure RR_sweep_measure m0)
  qed
  then show ?thesis using step inv' len len' by simp
qed

lemma RR_loop_partial:
  assumes "RR_loop q s = Some r" and "RR_inv s"
  shows "\<exists>s'. r = Inr s' \<and> RR_inv s' \<and> length (processes s') = length (processes s) \<and>
           (\<forall>p \<in> set (processes s'). finished p)"
proof -
  have "RR_inv s \<longrightarrow> (\<exists>s'. r = Inr s' \<and> RR_inv s' \<and>
          length (processes s') = length (processes s) \<and> (\<forall>p \<in> set (processes s'). finished p))"
  proof (rule RR_loop.raw_induct [where P = "\<lambda>q s r. RR_inv s \<longrightarrow> (\<exists>s'. r = Inr s' \<and> RR_inv s' \<and>
          length (processes s') = length (processes s) \<and> (\<forall>p \<in> set (processes s'). finished p))",
          OF _ assms(1)])
    fix loop q s r
    assume IH: "\<And>q s r. loop q s = Some r \<Longrightarrow> RR_inv s \<longrightarrow> (\<exists>s'. r = Inr s' \<and> RR_inv s' \<and>
          length (processes s') = length (processes s) \<and> (\<forall>p \<in> set (processes s'). finished p))"
      and body: "(if finished_count s < length (processes s) then
                    (case RR_step q s of Inl e \<Rightarrow> Some (Inl e) | Inr s' \<Rightarrow> loop q s')
                  else Some (Inr s)) = Some r"
    show "RR_inv s \<longrightarrow> (\<exists>s'. r = Inr s' \<and> RR_inv s' \<and>
          length (processes s') = length (processes s) \<and> (\<forall>p \<in> set (processes s'). finished p))"
    proof
      assume inv: "RR_inv s"
      show "\<exists>s'. r = Inr s' \<and> RR_inv s' \<and>
          length (processes s') = length (processes s) \<and> (\<forall>p \<in> set (processes s'). finished p)"
      proof (cases "finished_count s < length (processes s)")
        case True
        obtain s1 where s1: "RR_step q s = Inr s1" "RR_inv s1"
          "length (processes s1) = length (processes s)"
          using RR_step_inv [OF inv True, of q] by blast
        then have "loop q s1 = Some r" using body True by simp
        then show ?thesis using IH [of q s1 r] s1 by simp
      next
        case False
        then have r: "r = Inr s" using body by simp
        have "length (filter finished (processes s)) = length (processes s)"
          using False inv length_filter_le [of finished "processes s"]
          unfolding RR_inv_def by linarith
        then show ?thesis using inv r all_finished_iff [of "processes s"] by simp
      qed
    qed
  qed
  then show ?thesis using assms(2) by simp
qed

lemma RR_loop_terminates:
  assumes "RR_inv s" and "0 < q"
  shows "\<exists>r. RR_loop q s = Some r"
  using assms(1)
proof (induction s rule: measure_induct_rule [of RR_measure])
  case (less s)
  show ?case
  proof (cases "finished_count s < length (processes s)")
    case False
    then show ?thesis by (subst RR_loop.simps) simp
  next
    case True
    obtain s1 where s1: "RR_step q s = Inr s1" "RR_inv s1" "RR_measure s1 < RR_measure s"
      using RR_step_inv [OF less.prems True, of q] assms(2) by blast
    obtain r where "RR_loop q s1 = Some r" using less.IH [OF s1(3) s1(2)] by blast
    then show ?thesis using True s1(1) by (subst RR_loop.simps) simp
  qed
qed

lemma RR_init_inv:
  assumes "\<forall>p \<in> set qs. \<not> finished p" and "qs \<noteq> []"
  shows "RR_inv (RR_init qs)"
proof -
  have "filter finished qs = []" using assms by (auto simp: filter_empty_conv)
  moreover have "\<not> finished (qs ! 0)" using assms by (simp add: nth_mem [of 0 qs])
  moreover have "\<forall>k < length qs. \<not> finished (qs ! k)" using assms(1) by simp
  ultimately show ?thesis using assms(2) by (simp add: RR_inv_def RR_init_def)
qed

lemma RR_loop_empty: "RR_loop q (RR_init []) = Some (Inr (RR_init []))"
  by (subst RR_loop.simps) (simp add: RR_init_def)

lemma RR_run_correct:
  assumes "RR_run q qs = Some r" and "\<forall>p \<in> set qs. \<not> finished p"
  shows "\<exists>ps' m. r = Inr (ps', m) \<and> length ps' = length qs \<and>
           (\<forall>p \<in> set ps'. finished p \<and> metrics_ok p)"
proof (cases "qs = []")
  case True
  have "RR_run q [] = Some (Inr (processes (RR_init []), average (metrics (RR_init [])) 0))"
    by (simp add: RR_run_def RR_loop_empty)
  then have "r = Inr ([], average metrics0 0)"
    using assms(1) True by (simp add: RR_init_def)
  then show ?thesis using True by simp
next
  case False
  obtain r0 where r0: "RR_loop q (RR_init qs) = Some r0"
    using assms(1) by (cases "RR_loop q (RR_init qs)") (simp_all add: RR_run_def)
  obtain s' where s': "r0 = Inr s'" "RR_inv s'"
    "length (processes s') = length (processes (RR_init qs))"
    "\<forall>p \<in> set (processes s'). finished p"
    using RR_loop_partial [OF r0 RR_init_inv [OF assms(2) False]] by blast
  have mo: "\<forall>k < length (processes s'). finished (processes s' ! k) \<longrightarrow> metrics_ok (processes s' ! k)"
    using s'(2) by (simp add: RR_inv_def)
  have ok: "finished p \<and> metrics_ok p" if "p \<in> set (processes s')" for p
  proof -
    have "\<exists>k. k < length (processes s') \<and> processes s' ! k = p"
      using that by (simp add: in_set_conv_nth)
    then obtain k where k1: "k < length (processes s')" and k2: "processes s' ! k = p"
      by blast
    have fp: "finished p" using s'(4) that by blast
    from mo k1 have "finished (processes s' ! k) \<longrightarrow> metrics_ok (processes s' ! k)"
      by blast
    then have "finished p \<longrightarrow> metrics_ok p" unfolding k2 .
    then show ?thesis using fp by blast
  qed
  have "RR_run q qs = Some (Inr (processes s', average (metrics s') (length qs)))"
    by (simp add: RR_run_def r0 s'(1))
  then have r: "r = Inr (processes s', average (metrics s') (length qs))"
    using assms(1) by simp
  have len: "length (processes s') = length qs" using s'(3) by (simp add: RR_init_def)
  show ?thesis
    by (rule exI [of _ "processes s'"], rule exI [of _ "average (metrics s') (length qs)"])
       (use r len ok in blast)
qed

lemma RR_run_returns:
  assumes "\<forall>p \<in> set qs. \<not> finished p" and "0 < q"
  shows "\<exists>ps' m. RR_run q qs = Some (Inr (ps', m)) \<and> length ps' = length qs \<and>
           (\<forall>p \<in> set ps'. finished p \<and> metrics_ok p)"
proof -
  have "\<exists>r0. RR_loop q (RR_init qs) = Some r0"
  proof (cases "qs = []")
    case True
    then show ?thesis by (simp add: RR_loop_empty)
  next
    case False
    then show ?thesis
      using RR_loop_terminates [OF RR_init_inv [OF assms(1)] assms(2)] by blast
  qed
  then obtain r0 where r0: "RR_loop q (RR_init qs) = Some r0" by blast
  have "\<exists>r. RR_run q qs = Some r"
    by (cases r0) (simp_all add: RR_run_def r0)
  then obtain r where r: "RR_run q qs = Some r" by blast
  show ?thesis using RR_run_correct [OF r assms(1)] r by auto
qed

section \<open>Claim C7: the metric identities\<close>

text \<open>No engine changes an arrival or a burst time.\<close>

lemma SJF_loop_unchanged:
  assumes "SJF_loop s = Some s'"
  shows "map at' (processes s') = map at' (processes s) \<and>
         map bt (processes s') = map bt (processes s)"
proof (rule SJF_loop.raw_induct [where P = "\<lambda>s s'.
         map at' (processes s') = map at' (processes s) \<and>
         map bt (processes s') = map bt (processes s)", OF _ assms])
  fix loop s s'
  assume IH: "\<And>s s'. loop s = Some s' \<Longrightarrow>
        map at' (processes s') = map at' (processes s) \<and>
        map bt (processes s') = map bt (processes s)"
    and body: "(if finished_count s < length (processes s) then loop (SJF_step s) else Some s)
               = Some s'"
  show "map at' (processes s') = map at' (processes s) \<and>
        map bt (processes s') = map bt (processes s)"
  proof (cases "finished_count s < length (processes s)")
    case True
    then have "loop (SJF_step s) = Some s'" using body by simp
    then show ?thesis using IH [of "SJF_step s" s'] by (simp add: SJF_step_unchanged)
  next
    case False
    then show ?thesis using body by simp
  qed
qed

lemma sweep_marks_unchanged:
  "map at' (sweep_marks t ps) = map at' ps" "map bt (sweep_marks t ps) = map bt ps"
  by (rule nth_equalityI, simp, simp add: nth_sweep_marks)+

lemma RR_recover_from_unchanged:
  "map at' (fst (RR_recover_from i ps qu)) = map at' ps"
  "map bt (fst (RR_recover_from i ps qu)) = map bt ps"
  by (induction ps arbitrary: i) (simp_all add: case_prod_beta)

lemma RR_recover_unchanged:
  "map at' (processes (RR_recover s)) = map at' (processes s) \<and>
   map bt (processes (RR_recover s)) = map bt (processes s)"
  by (simp add: RR_recover_def RR_recover_from_unchanged case_prod_beta split: list.splits)

lemma RR_dispatch_unchanged:
  assumes "c < length (processes s)"
  shows "map at' (processes (RR_dispatch q c s)) = map at' (processes s) \<and>
         map bt (processes (RR_dispatch q c s)) = map bt (processes s)"
proof (cases "rbt (processes s ! c) - q > 0")
  case True
  obtain curr' where "RR_dispatch q c s =
     s\<lparr>processes := (processes s)[c := curr'],
       time_passed := (if rbt (processes s ! c) = bt (processes s ! c)
                       then max (time_passed s) (at' (processes s ! c)) else time_passed s) + q\<rparr>"
     "at' curr' = at' (processes s ! c)" "bt curr' = bt (processes s ! c)"
    using RR_dispatch_continue [OF True] by blast
  then show ?thesis using assms by (simp add: map_update list_update_same_conv)
next
  case False
  obtain curr' where "RR_dispatch q c s =
     s\<lparr>processes := (processes s)[c := curr'],
       time_passed := (if rbt (processes s ! c) = bt (processes s ! c)
                       then max (time_passed s) (at' (processes s ! c)) else time_passed s)
                      + rbt (processes s ! c),
       finished_count := finished_count s + 1,
       metrics := accumulate (metrics s) curr'\<rparr>"
     "at' curr' = at' (processes s ! c)" "bt curr' = bt (processes s ! c)"
    using RR_dispatch_finish [OF False] by blast
  then show ?thesis using assms by (simp add: map_update list_update_same_conv)
qed

lemma RR_step_unchanged:
  assumes "RR_step q s = Inr s'"
  shows "map at' (processes s') = map at' (processes s) \<and>
         map bt (processes s') = map bt (processes s)"
proof -
  obtain c rest where qu: "ready_indexes_queue s = c # rest" and c: "c < length (processes s)"
    using assms by (cases "ready_indexes_queue s") (auto simp: RR_step_def split: if_splits)
  define s0 where "s0 = s\<lparr>ready_indexes_queue := rest\<rparr>"
  define s1 where "s1 = RR_dispatch q c s0"
  have s': "s' = RR_recover (RR_requeue c (RR_sweep s1))"
    using assms qu c by (simp add: RR_step_def s1_def s0_def)
  have 1: "map at' (processes s1) = map at' (processes s) \<and>
           map bt (processes s1) = map bt (processes s)"
    using RR_dispatch_unchanged [of c s0 q] c by (simp add: s1_def s0_def)
  have 2: "processes (RR_requeue c (RR_sweep s1)) = sweep_marks (time_passed s1) (processes s1)"
    unfolding RR_sweep_eq by (simp add: RR_requeue_def)
  show ?thesis
    unfolding s' using RR_recover_unchanged [of "RR_requeue c (RR_sweep s1)"] 1
    by (simp add: 2 sweep_marks_unchanged)
qed

lemma RR_loop_unchanged:
  assumes "RR_loop q s = Some r"
  shows "\<forall>s'. r = Inr s' \<longrightarrow>
           map at' (processes s') = map at' (processes s) \<and>
           map bt (processes s') = map bt (processes s)"
proof (rule RR_loop.raw_induct [where P = "\<lambda>q s r. \<forall>s'. r = Inr s' \<longrightarrow>
           map at' (processes s') = map at' (processes s) \<and>
           map bt (processes s') = map bt (processes s)", OF _ assms])
  fix loop q s r
  assume IH: "\<And>q s r. loop q s = Some r \<Longrightarrow> \<forall>s'. r = Inr s' \<longrightarrow>
           map at' (processes s') = map at' (processes s) \<and>
           map bt (processes s') = map bt (processes s)"
    and body: "(if finished_count s < length (processes s) then
                  (case RR_step q s of Inl e \<Rightarrow> Some (Inl e) | Inr s' \<Rightarrow> loop q s')
                else Some (Inr s)) = Some r"
  show "\<forall>s'. r = Inr s' \<longrightarrow>
           map at' (processes s') = map at' (processes s) \<and>
           map bt (processes s') = map bt (processes s)"
  proof (cases "finished_count s < length (processes s)")
    case True
    show ?thesis
    proof (cases "RR_step q s")
      case (Inl e)
      then have "r = Inl e" using body True by simp
      then show ?thesis by simp
    next
      case (Inr s1)
      then have "loop q s1 = Some r" using body True by simp
      then show ?thesis using IH [of q s1 r] RR_step_unchanged [OF Inr] by simp
    qed
  next
    case False
    then show ?thesis using body by auto
  qed
qed

lemma RR_run_fields:
  assumes "RR_run q qs = Some r" and "\<forall>p \<in> set qs. \<not> finished p"
  shows "\<exists>ps' m. r = Inr (ps', m) \<and> length ps' = length qs \<and>
           (\<forall>i < length qs. finished (ps' ! i) \<and> metrics_ok (ps' ! i) \<and>
              at' (ps' ! i) = at' (qs ! i) \<and> bt (ps' ! i) = bt (qs ! i))"
proof (cases "qs = []")
  case True
  have "RR_run q [] = Some (Inr (processes (RR_init []), average (metrics (RR_init [])) 0))"
    by (simp add: RR_run_def RR_loop_empty)
  then have "r = Inr ([], average metrics0 0)"
    using assms(1) True by (simp add: RR_init_def)
  then show ?thesis using True by simp
next
  case False
  obtain r0 where r0: "RR_loop q (RR_init qs) = Some r0"
    using assms(1) by (cases "RR_loop q (RR_init qs)") (simp_all add: RR_run_def)
  obtain s' where s': "r0 = Inr s'" "RR_inv s'"
    "length (processes s') = length (processes (RR_init qs))"
    "\<forall>p \<in> set (processes s'). finished p"
    using RR_loop_partial [OF r0 RR_init_inv [OF assms(2) False]] by blast
  have un: "map at' (processes s') = map at' (processes (RR_init qs))"
    "map bt (processes s') = map bt (processes (RR_init qs))"
    using RR_loop_unchanged [OF r0] s'(1) by simp_all
  have len: "length (processes s') = length qs" using s'(3) by (simp add: RR_init_def)
  have mo: "\<forall>k < length (processes s'). finished (processes s' ! k) \<longrightarrow> metrics_ok (processes s' ! k)"
    using s'(2) by (simp add: RR_inv_def)
  have ok: "finished (processes s' ! i) \<and> metrics_ok (processes s' ! i) \<and>
            at' (processes s' ! i) = at' (qs ! i) \<and> bt (processes s' ! i) = bt (qs ! i)"
    if "i < length qs" for i
  proof -
    have i: "i < length (processes s')" using that len by simp
    then have f: "finished (processes s' ! i)" using s'(4) nth_mem by blast
    from mo i f have m: "metrics_ok (processes s' ! i)" by blast
    have "map at' (processes s') ! i = map at' qs ! i" "map bt (processes s') ! i = map bt qs ! i"
      using un by (simp_all add: RR_init_def)
    then have "at' (processes s' ! i) = at' (qs ! i)" "bt (processes s' ! i) = bt (qs ! i)"
      using i that by simp_all
    then show ?thesis using f m by simp
  qed
  have "RR_run q qs = Some (Inr (processes s', average (metrics s') (length qs)))"
    by (simp add: RR_run_def r0 s'(1))
  then have r: "r = Inr (processes s', average (metrics s') (length qs))"
    using assms(1) by simp
  show ?thesis
    by (rule exI [of _ "processes s'"], rule exI [of _ "average (metrics s') (length qs)"])
       (use r len ok in blast)
qed

lemma SJF_Start_fields:
  assumes "SJF_Start ps = Some (ps', m)" and "\<forall>p \<in> set ps. \<not> finished p"
  shows "length ps' = length ps \<and>
           (\<forall>i < length ps. finished (ps' ! i) \<and> metrics_ok (ps' ! i) \<and>
              at' (ps' ! i) = at' (ps ! i) \<and> bt (ps' ! i) = bt (ps ! i))"
proof -
  obtain s' where s': "SJF_loop (SJF_init ps) = Some s'" and p: "ps' = processes s'"
    using assms(1) by (cases "SJF_loop (SJF_init ps)") (auto simp: SJF_Start_def)
  have "filter finished ps = []" using assms(2) by (auto simp: filter_empty_conv)
  then have inv: "SJF_inv (SJF_init ps)"
    using assms(2) by (simp add: SJF_inv_def SJF_init_def)
  have part: "SJF_inv s'" "length (processes s') = length (processes (SJF_init ps))"
     "\<forall>p \<in> set (processes s'). finished p"
    using SJF_loop_partial [OF s' inv] by simp_all
  have un: "map at' ps' = map at' ps" "map bt ps' = map bt ps"
    using SJF_loop_unchanged [OF s'] by (simp_all add: p SJF_init_def)
  have len: "length ps' = length ps" using part(2) by (simp add: p SJF_init_def)
  have ok: "finished (ps' ! i) \<and> metrics_ok (ps' ! i) \<and>
            at' (ps' ! i) = at' (ps ! i) \<and> bt (ps' ! i) = bt (ps ! i)"
    if "i < length ps" for i
  proof -
    have i: "i < length ps'" using that len by simp
    then have mem: "ps' ! i \<in> set (processes s')" using p nth_mem by blast
    then have f: "finished (ps' ! i)" using part(3) by blast
    have m: "metrics_ok (ps' ! i)" using part(1) mem f unfolding SJF_inv_def by blast
    have "map at' ps' ! i = map at' ps ! i" "map bt ps' ! i = map bt ps ! i"
      using un by simp_all
    then have "at' (ps' ! i) = at' (ps ! i)" "bt (ps' ! i) = bt (ps ! i)"
      using i that by simp_all
    then show ?thesis using f m by simp
  qed
  show ?thesis using len ok by blast
qed

lemma FCFS_run_fields:
  assumes "i < length qs"
  shows "length (fst (FCFS_run qs)) = length qs \<and> metrics_ok (fst (FCFS_run qs) ! i) \<and>
         at' (fst (FCFS_run qs) ! i) = at' (qs ! i) \<and> bt (fst (FCFS_run qs) ! i) = bt (qs ! i)"
proof -
  define ps' where "ps' = fst (FCFS_loop 0 qs metrics0)"
  have run: "fst (FCFS_run qs) = ps'"
    by (simp add: FCFS_run_def case_prod_beta ps'_def)
  have len: "length ps' = length qs" unfolding ps'_def by (rule FCFS_loop_length)
  have "at' (ps' ! i) = at' (qs ! i) \<and> bt (ps' ! i) = bt (qs ! i) \<and>
     st (ps' ! i) = (if i = 0 then at' (qs ! i) else max (at' (qs ! i)) (ct (ps' ! (i - 1)))) \<and>
     ct (ps' ! i) = st (ps' ! i) + bt (qs ! i) \<and>
     tt (ps' ! i) = ct (ps' ! i) - at' (qs ! i) \<and>
     rt (ps' ! i) = st (ps' ! i) - at' (qs ! i) \<and>
     wt (ps' ! i) = tt (ps' ! i) - bt (qs ! i)"
    using FCFS_loop_fields [OF le0 assms ps'_def] .
  then show ?thesis unfolding run using len by (simp add: metrics_ok_def)
qed

lemma sort_exists: "SortArrivalTimeAsceding ps (sort_key at' ps)"
  unfolding SortArrivalTimeAsceding_def using sorted_sort_key [of at' ps]
  by (simp add: sorted_map sorted_wrt_iff_nth_less not_less sorted_iff_nth_mono_less)

text \<open>
  C7: take a vector of processes none of which is marked finished (as \<^verbatim>\<open>ParseFile\<close>
  builds it).  Each engine leaves a vector of the same length, whose position \<open>i\<close> holds
  the arrival and burst time of position \<open>i\<close> of the input (SJF, which does not sort) or of
  the ascending arrangement \<open>qs\<close> the sort produced (FCFS and RR), and in which every
  process satisfies \<open>tt = ct - at\<close>, \<open>rt = st - at\<close> and \<open>wt = tt - bt\<close>; in the SJF and RR
  results every process is marked finished, so the values are those computed at completion.
  FCFS returns for every arrangement the sort may leave; SJF returns when every burst time
  is below \<open>INT_MAX\<close>; RR returns, for every such arrangement, when the quantum is positive,
  and then never with an error.
\<close>

theorem C7_metric_identities:
  assumes "\<forall>p \<in> set ps. \<not> finished p"
  shows "(\<exists>r. FCFS_Start ps r) \<and>
         (\<forall>r. FCFS_Start ps r \<longrightarrow>
            (\<exists>qs. SortArrivalTimeAsceding ps qs \<and> length (fst r) = length ps \<and>
               (\<forall>i < length ps.
                  at' (fst r ! i) = at' (qs ! i) \<and> bt (fst r ! i) = bt (qs ! i) \<and>
                  tt (fst r ! i) = ct (fst r ! i) - at' (fst r ! i) \<and>
                  rt (fst r ! i) = st (fst r ! i) - at' (fst r ! i) \<and>
                  wt (fst r ! i) = tt (fst r ! i) - bt (fst r ! i)))) \<and>
         ((\<forall>p \<in> set ps. bt p < INT_MAX) \<longrightarrow> SJF_Start ps \<noteq> None) \<and>
         (\<forall>ps' m. SJF_Start ps = Some (ps', m) \<longrightarrow>
            length ps' = length ps \<and>
            (\<forall>i < length ps.
               finished (ps' ! i) \<and>
               at' (ps' ! i) = at' (ps ! i) \<and> bt (ps' ! i) = bt (ps ! i) \<and>
               tt (ps' ! i) = ct (ps' ! i) - at' (ps' ! i) \<and>
               rt (ps' ! i) = st (ps' ! i) - at' (ps' ! i) \<and>
               wt (ps' ! i) = tt (ps' ! i) - bt (ps' ! i))) \<and>
         (\<forall>q. \<exists>r. RR_Start q ps r) \<and>
         (\<forall>q r. 0 < q \<and> RR_Start q ps r \<longrightarrow> r \<noteq> None) \<and>
         (\<forall>q r. RR_Start q ps (Some r) \<longrightarrow>
            (\<exists>qs ps' m. SortArrivalTimeAsceding ps qs \<and> r = Inr (ps', m) \<and>
               length ps' = length ps \<and>
               (\<forall>i < length ps.
                  finished (ps' ! i) \<and>
                  at' (ps' ! i) = at' (qs ! i) \<and> bt (ps' ! i) = bt (qs ! i) \<and>
                  tt (ps' ! i) = ct (ps' ! i) - at' (ps' ! i) \<and>
                  rt (ps' ! i) = st (ps' ! i) - at' (ps' ! i) \<and>
                  wt (ps' ! i) = tt (ps' ! i) - bt (ps' ! i))))"
proof (intro conjI allI impI)
  show "\<exists>r. FCFS_Start ps r" using FCFS_Start.intros [OF sort_exists] by blast
  show "\<exists>r. RR_Start q ps r" for q using RR_Start.intros [OF sort_exists] by blast
next
  fix r assume "FCFS_Start ps r"
  then obtain qs where srt: "SortArrivalTimeAsceding ps qs" and r: "r = FCFS_run qs"
    by (cases rule: FCFS_Start.cases) auto
  have len: "length qs = length ps"
    using srt mset_eq_length [of qs ps] by (simp add: SortArrivalTimeAsceding_def)
  have l2: "length (fst r) = length ps"
    unfolding r using len by (simp add: FCFS_run_def case_prod_beta FCFS_loop_length)
  have "at' (fst r ! i) = at' (qs ! i) \<and> bt (fst r ! i) = bt (qs ! i) \<and>
        tt (fst r ! i) = ct (fst r ! i) - at' (fst r ! i) \<and>
        rt (fst r ! i) = st (fst r ! i) - at' (fst r ! i) \<and>
        wt (fst r ! i) = tt (fst r ! i) - bt (fst r ! i)" if "i < length ps" for i
    using FCFS_run_fields [of i qs] that len unfolding r metrics_ok_def by simp
  then show "\<exists>qs. SortArrivalTimeAsceding ps qs \<and> length (fst r) = length ps \<and>
               (\<forall>i < length ps.
                  at' (fst r ! i) = at' (qs ! i) \<and> bt (fst r ! i) = bt (qs ! i) \<and>
                  tt (fst r ! i) = ct (fst r ! i) - at' (fst r ! i) \<and>
                  rt (fst r ! i) = st (fst r ! i) - at' (fst r ! i) \<and>
                  wt (fst r ! i) = tt (fst r ! i) - bt (fst r ! i))"
    using srt l2 by blast
next
  assume "\<forall>p \<in> set ps. bt p < INT_MAX"
  then have "\<forall>p \<in> set ps. \<not> finished p \<and> bt p < INT_MAX" using assms by blast
  then show "SJF_Start ps \<noteq> None" using SJF_Start_returns [of ps] by auto
next
  fix ps' m assume a: "SJF_Start ps = Some (ps', m)"
  note f = SJF_Start_fields [OF a assms]
  show "length ps' = length ps" using f by simp
  fix i assume i: "i < length ps"
  then have "finished (ps' ! i) \<and> metrics_ok (ps' ! i) \<and>
              at' (ps' ! i) = at' (ps ! i) \<and> bt (ps' ! i) = bt (ps ! i)"
    using f by blast
  then show "finished (ps' ! i)" "at' (ps' ! i) = at' (ps ! i)" "bt (ps' ! i) = bt (ps ! i)"
    "tt (ps' ! i) = ct (ps' ! i) - at' (ps' ! i)"
    "rt (ps' ! i) = st (ps' ! i) - at' (ps' ! i)"
    "wt (ps' ! i) = tt (ps' ! i) - bt (ps' ! i)"
    by (simp_all add: metrics_ok_def)
next
  fix q r assume "0 < q \<and> RR_Start q ps r"
  then have q: "0 < q" and st: "RR_Start q ps r" by simp_all
  from st obtain qs where srt: "SortArrivalTimeAsceding ps qs" and run: "r = RR_run q qs"
    by (cases rule: RR_Start.cases) auto
  have "set qs = set ps" using srt mset_eq_setD [of qs ps] by (simp add: SortArrivalTimeAsceding_def)
  then have fresh: "\<forall>p \<in> set qs. \<not> finished p" using assms by simp
  show "r \<noteq> None" using RR_run_returns [OF fresh q] run by auto
next
  fix q r assume "RR_Start q ps (Some r)"
  then obtain qs where srt: "SortArrivalTimeAsceding ps qs" and run: "RR_run q qs = Some r"
    by (cases rule: RR_Start.cases) auto
  have "set qs = set ps" using srt mset_eq_setD [of qs ps] by (simp add: SortArrivalTimeAsceding_def)
  then have fresh: "\<forall>p \<in> set qs. \<not> finished p" using assms by simp
  have len: "length qs = length ps"
    using srt mset_eq_length [of qs ps] by (simp add: SortArrivalTimeAsceding_def)
  obtain ps' m where r: "r = Inr (ps', m)" and l: "length ps' = length qs"
    and f: "\<forall>i < length qs. finished (ps' ! i) \<and> metrics_ok (ps' ! i) \<and>
              at' (ps' ! i) = at' (qs ! i) \<and> bt (ps' ! i) = bt (qs ! i)"
    using RR_run_fields [OF run fresh] by blast
  have "finished (ps' ! i) \<and>
                  at' (ps' ! i) = at' (qs ! i) \<and> bt (ps' ! i) = bt (qs ! i) \<and>
                  tt (ps' ! i) = ct (ps' ! i) - at' (ps' ! i) \<and>
                  rt (ps' ! i) = st (ps' ! i) - at' (ps' ! i) \<and>
                  wt (ps' ! i) = tt (ps' ! i) - bt (ps' ! i)" if "i < length ps" for i
  proof -
    have "finished (ps' ! i) \<and> metrics_ok (ps' ! i) \<and>
              at' (ps' ! i) = at' (qs ! i) \<and> bt (ps' ! i) = bt (qs ! i)"
      using f that len by simp
    then show ?thesis by (simp add: metrics_ok_def)
  qed
  then show "\<exists>qs ps' m. SortArrivalTimeAsceding ps qs \<and> r = Inr (ps', m) \<and>
               length ps' = length ps \<and>
               (\<forall>i < length ps.
                  finished (ps' ! i) \<and>
                  at' (ps' ! i) = at' (qs ! i) \<and> bt (ps' ! i) = bt (qs ! i) \<and>
                  tt (ps' ! i) = ct (ps' ! i) - at' (ps' ! i) \<and>
                  rt (ps' ! i) = st (ps' ! i) - at' (ps' ! i) \<and>
                  wt (ps' ! i) = tt (ps' ! i) - bt (ps' ! i))"
    using srt r l len by auto
qed

theorem C7_metric_identities_witness:
  "map finished sample_input = [False, False, False, False] \<and>
   list_all (\<lambda>p. bt p < INT_MAX) sample_input \<and>
   FCFS_Start sample_input (FCFS_run sample_input) \<and>
   length (fst (FCFS_run sample_input)) = 4 \<and>
   list_all (\<lambda>p. tt p = ct p - at' p \<and> rt p = st p - at' p \<and> wt p = tt p - bt p)
     (fst (FCFS_run sample_input)) \<and>
   (\<exists>ps' m. SJF_Start sample_input = Some (ps', m) \<and> length ps' = 4 \<and>
      map at' ps' = [0, 0, 4, 4] \<and> map bt ps' = [20, 10, 6, 8] \<and>
      list_all (\<lambda>p. finished p \<and> tt p = ct p - at' p \<and> rt p = st p - at' p \<and>
                    wt p = tt p - bt p) ps') \<and>
   (\<exists>ps' m. RR_Start 2 sample_input (Some (Inr (ps', m))) \<and> length ps' = 4 \<and>
      list_all (\<lambda>p. finished p \<and> tt p = ct p - at' p \<and> rt p = st p - at' p \<and>
                    wt p = tt p - bt p) ps')"
proof -
  have fin: "map finished sample_input = [False, False, False, False]"
    by (simp add: sample_input_def mk_process_def)
  have small: "list_all (\<lambda>p. bt p < INT_MAX) sample_input"
    by (simp add: sample_input_def mk_process_def INT_MAX_def)
  have fresh: "\<forall>p \<in> set sample_input. \<not> finished p"
    by (simp add: sample_input_def mk_process_def)
  have len: "length sample_input = 4" by (simp add: sample_input_def)
  note th = C7_metric_identities [OF fresh]
  note fcfs = th [THEN conjunct2, THEN conjunct1, rule_format]
  note sjf_ret = th [THEN conjunct2, THEN conjunct2, THEN conjunct1]
  note sjf = th [THEN conjunct2, THEN conjunct2, THEN conjunct2, THEN conjunct1, rule_format]
  note rr_ex = th [THEN conjunct2, THEN conjunct2, THEN conjunct2, THEN conjunct2,
      THEN conjunct1, rule_format]
  note rr_ret = th [THEN conjunct2, THEN conjunct2, THEN conjunct2, THEN conjunct2,
      THEN conjunct2, THEN conjunct1, rule_format]
  note rr = th [THEN conjunct2, THEN conjunct2, THEN conjunct2, THEN conjunct2,
      THEN conjunct2, THEN conjunct2, rule_format]
  have srt: "SortArrivalTimeAsceding sample_input sample_input"
    by (simp add: SortArrivalTimeAsceding_def sample_input_def mk_process_def)
  have f: "FCFS_Start sample_input (FCFS_run sample_input)"
    by (rule FCFS_Start.intros [OF srt])
  have f1: "length (fst (FCFS_run sample_input)) = length sample_input"
    using fcfs [OF f] by (elim exE conjE)
  have f3: "list_all (\<lambda>p. tt p = ct p - at' p \<and> rt p = st p - at' p \<and> wt p = tt p - bt p)
     (fst (FCFS_run sample_input))"
    using fcfs [OF f] by (elim exE conjE) (simp add: list_all_length)
  have "\<forall>p \<in> set sample_input. bt p < INT_MAX" using small unfolding list_all_iff .
  then have "SJF_Start sample_input \<noteq> None" by (rule sjf_ret [THEN mp])
  then obtain ps1 m1 where s0: "SJF_Start sample_input = Some (ps1, m1)" by auto
  have s1: "length ps1 = length sample_input"
    and s2: "\<And>i. i < length sample_input \<Longrightarrow>
         finished (ps1 ! i) \<and> at' (ps1 ! i) = at' (sample_input ! i) \<and>
         bt (ps1 ! i) = bt (sample_input ! i) \<and>
         tt (ps1 ! i) = ct (ps1 ! i) - at' (ps1 ! i) \<and>
         rt (ps1 ! i) = st (ps1 ! i) - at' (ps1 ! i) \<and>
         wt (ps1 ! i) = tt (ps1 ! i) - bt (ps1 ! i)"
    using sjf [OF s0] by simp_all
  have s3: "list_all (\<lambda>p. finished p \<and> tt p = ct p - at' p \<and> rt p = st p - at' p \<and>
                    wt p = tt p - bt p) ps1"
    unfolding list_all_length s1 using s2 by simp
  have "map at' ps1 = map at' sample_input" "map bt ps1 = map bt sample_input"
    using s1 s2 by (simp_all add: list_eq_iff_nth_eq)
  then have s4: "map at' ps1 = [0, 0, 4, 4]" "map bt ps1 = [20, 10, 6, 8]"
    by (simp_all add: sample_input_def mk_process_def)
  obtain r where r0: "RR_Start 2 sample_input r" using rr_ex [of 2] ..
  have "r \<noteq> None" using rr_ret [of 2 r] r0 by simp
  then obtain r1 where r1: "r = Some r1" by auto
  have r01: "RR_Start 2 sample_input (Some r1)" using r0 r1 by simp
  have "\<exists>ps' m. r1 = Inr (ps', m) \<and> length ps' = length sample_input \<and>
      list_all (\<lambda>p. finished p \<and> tt p = ct p - at' p \<and> rt p = st p - at' p \<and>
                    wt p = tt p - bt p) ps'"
    using rr [OF r01]
    unfolding list_all_length by (elim exE conjE) simp
  then obtain ps2 m2 where r2: "r1 = Inr (ps2, m2)" and r3: "length ps2 = length sample_input"
    and r5: "list_all (\<lambda>p. finished p \<and> tt p = ct p - at' p \<and> rt p = st p - at' p \<and>
                    wt p = tt p - bt p) ps2"
    by blast
  have r6: "RR_Start 2 sample_input (Some (Inr (ps2, m2)))" using r0 r1 r2 by simp
  have A: "\<exists>ps' m. SJF_Start sample_input = Some (ps', m) \<and> length ps' = 4 \<and>
      map at' ps' = [0, 0, 4, 4] \<and> map bt ps' = [20, 10, 6, 8] \<and>
      list_all (\<lambda>p. finished p \<and> tt p = ct p - at' p \<and> rt p = st p - at' p \<and>
                    wt p = tt p - bt p) ps'"
    using s0 s1 s3 s4 len by (intro exI [of _ ps1] exI [of _ m1]) simp
  have B: "\<exists>ps' m. RR_Start 2 sample_input (Some (Inr (ps', m))) \<and> length ps' = 4 \<and>
      list_all (\<lambda>p. finished p \<and> tt p = ct p - at' p \<and> rt p = st p - at' p \<and>
                    wt p = tt p - bt p) ps'"
    using r6 r3 r5 len by (intro exI [of _ ps2] exI [of _ m2]) simp
  have f1': "length (fst (FCFS_run sample_input)) = 4" using f1 len by simp
  show ?thesis using fin small f f1' f3 A B by (intro conjI)
qed

section \<open>Claim C8: the engines return\<close>

text \<open>
  When no burst time reaches \<open>INT_MAX\<close> and the quantum is positive, every engine
  returns: FCFS is a single pass, SJF and RR return with every process finished, RR for
  every arrangement the sort may leave and without touching an empty queue.
\<close>

lemma engines_return_below_sentinel:
  assumes "\<forall>p \<in> set ps. \<not> finished p \<and> bt p < INT_MAX" and "0 < q"
  shows "(\<exists>r. FCFS_Start ps r) \<and>
         (\<exists>ps' m. SJF_Start ps = Some (ps', m) \<and> (\<forall>p \<in> set ps'. finished p)) \<and>
         (\<forall>r. RR_Start q ps r \<longrightarrow>
            (\<exists>ps' m. r = Some (Inr (ps', m)) \<and> (\<forall>p \<in> set ps'. finished p)))"
proof (intro conjI allI impI)
  have "SortArrivalTimeAsceding ps (sort_key at' ps)"
    unfolding SortArrivalTimeAsceding_def using sorted_sort_key [of at' ps]
    by (simp add: sorted_map sorted_wrt_iff_nth_less not_less sorted_iff_nth_mono_less)
  then show "\<exists>r. FCFS_Start ps r" using FCFS_Start.intros by blast
  show "\<exists>ps' m. SJF_Start ps = Some (ps', m) \<and> (\<forall>p \<in> set ps'. finished p)"
    using SJF_Start_returns [OF assms(1)] by blast
next
  fix r assume "RR_Start q ps r"
  then obtain qs where srt: "SortArrivalTimeAsceding ps qs" and run: "r = RR_run q qs"
    by (cases rule: RR_Start.cases) auto
  have "set qs = set ps" using srt mset_eq_setD [of qs ps] by (simp add: SortArrivalTimeAsceding_def)
  then have fresh: "\<forall>p \<in> set qs. \<not> finished p" using assms(1) by simp
  show "\<exists>ps' m. r = Some (Inr (ps', m)) \<and> (\<forall>p \<in> set ps'. finished p)"
    using RR_run_returns [OF fresh assms(2)] run by blast
qed

text \<open>
  C8: on every non-empty vector with positive burst times each engine returns.  For SJF
  this fails on the file with the single line \<open>0 2147483647\<close>: the parser delivers the
  process (0, INT_MAX), well inside the input format, the scan never selects it, and the
  loop only advances the clock and does not return.
\<close>

theorem C8_sjf_does_not_return:
  "fst (ParseFile (Some ''0 2147483647'')) = [mk_process 0 INT_MAX] \<and>
   0 < bt (mk_process 0 INT_MAX) \<and> 0 \<le> at' (mk_process 0 INT_MAX) \<and>
   SJF_Start [mk_process 0 INT_MAX] = None"
proof -
  have "SJF_init [mk_process 0 INT_MAX] = sentinel_state 0"
    by (simp add: SJF_init_def sentinel_state_def)
  then have "SJF_loop (SJF_init [mk_process 0 INT_MAX]) = None"
    using SJF_loop_sentinel [of 0] by simp
  then have "SJF_Start [mk_process 0 INT_MAX] = None" by (simp add: SJF_Start_def)
  moreover have "fst (ParseFile (Some ''0 2147483647'')) = [mk_process 0 INT_MAX]"
    by code_simp
  ultimately show ?thesis by (simp add: mk_process_def INT_MAX_def)
qed

end
